theory Spec2Isabelle
  imports Complex_Main "HOL-Library.Word"
begin

section \<open>Conventions of the embedding\<close>

text \<open>
  The C++ type \<open>int\<close> is a 32-bit two's complement word: \<open>+\<close>, \<open>-\<close> and \<open>*\<close> wrap
  around, which is what the usual targets compute where C++ leaves signed overflow
  undefined, and \<open>sint\<close> reads the signed value (used for every comparison and for
  every conversion to \<open>double\<close>).

  The C++ type \<open>double\<close> is idealised to \<open>real\<close>: arithmetic is exact (no rounding), and
  \<open>std::exp\<close> is the real exponential. IEEE division by zero yields an infinity or a NaN,
  which no real number represents; the model reports it as the outcome \<open>NotFinite\<close>
  instead of using the value that HOL gives to \<open>x / 0\<close>.

  Exceptions and undefined behaviour are values of the type \<open>error\<close>, returned as \<open>Inl\<close>.
  Logging (\<open>Log::...\<close>) has no effect on any result and is left out.
\<close>

type_synonym cint = "32 word"

datatype error =
    OutOfRange          \<comment> \<open>\<open>std::out_of_range\<close> thrown by \<open>map::at\<close>\<close>
  | BadOptionalAccess   \<comment> \<open>\<open>std::bad_optional_access\<close> thrown by \<open>optional::value\<close>\<close>
  | EndDereference      \<comment> \<open>undefined behaviour: dereferencing \<open>rates.end()\<close>\<close>
  | NotFinite           \<comment> \<open>an IEEE infinity or NaN (a \<open>double\<close> division by zero)\<close>

section \<open>G5: the currency group\<close>

datatype Currency = EUR | GBP | USD | CAD | JPY

definition strings :: "string list" where
  "strings = [''EUR'', ''GBP'', ''USD'', ''CAD'', ''JPY'']"

definition currency_of_index :: "nat \<Rightarrow> Currency" where
  \<comment> \<open>\<open>static_cast<Currency>(i)\<close> for \<open>i < 5\<close>\<close>
  "currency_of_index i = [EUR, GBP, USD, CAD, JPY] ! i"

fun to_ccy_loop :: "string \<Rightarrow> nat \<Rightarrow> string list \<Rightarrow> Currency option" where
  "to_ccy_loop ccy_str i [] = None"
| "to_ccy_loop ccy_str i (s # ss) =
     (if ccy_str = s then Some (currency_of_index i) else to_ccy_loop ccy_str (Suc i) ss)"

definition to_ccy :: "string \<Rightarrow> Currency option" where
  "to_ccy ccy_str = to_ccy_loop ccy_str 0 strings"

section \<open>InterestRates: one curve\<close>

text \<open>
  \<open>std::map<int, double> rates\<close> is an association list kept in strictly ascending
  key order (the order a \<open>std::map\<close> iterates in). An iterator is an index into the list,
  \<open>rates.begin()\<close> is 0 and \<open>rates.end()\<close> is the length.
\<close>

record InterestRates =
  rates :: "(cint \<times> real) list"

definition InterestRates_default :: InterestRates where
  "InterestRates_default = \<lparr>rates = []\<rparr>"

definition check_tenor :: "InterestRates \<Rightarrow> cint \<Rightarrow> bool" where
  "check_tenor c tenor = (map_of (rates c) tenor \<noteq> None)"

definition get_tenors :: "InterestRates \<Rightarrow> cint list" where
  "get_tenors c = map fst (rates c)"

fun upper_bound :: "(cint \<times> real) list \<Rightarrow> cint \<Rightarrow> nat" where
  \<comment> \<open>index of the first entry whose key is greater than \<open>t\<close>, the length if there is none\<close>
  "upper_bound [] t = 0"
| "upper_bound ((k, v) # kvs) t =
     (if sint t < sint k then 0 else Suc (upper_bound kvs t))"

definition deref :: "(cint \<times> real) list \<Rightarrow> nat \<Rightarrow> error + (cint \<times> real)" where
  "deref kvs it = (if it < length kvs then Inr (kvs ! it) else Inl EndDereference)"

definition bracket :: "InterestRates \<Rightarrow> cint \<Rightarrow> error + (cint \<times> real \<times> cint \<times> real)" where
  \<comment> \<open>lines 79--96: the values of \<open>(t_left, r_left, t_right, r_right)\<close>\<close>
  "bracket c t =
     (let it = upper_bound (rates c) t in
      if it = 0 then
        (case deref (rates c) it of
           Inl e \<Rightarrow> Inl e
         | Inr (k, v) \<Rightarrow> Inr (0, 0, k, v))
      else
        (case deref (rates c) (it - 1) of
           Inl e \<Rightarrow> Inl e
         | Inr (t_left, r_left) \<Rightarrow>
             if it = length (rates c) then Inr (t_left, r_left, t_left + 1, r_left)
             else (case deref (rates c) it of
                     Inl e \<Rightarrow> Inl e
                   | Inr (k, v) \<Rightarrow> Inr (t_left, r_left, k, v))))"

definition of_cint :: "cint \<Rightarrow> real" where
  \<comment> \<open>the conversion of an \<open>int\<close> to \<open>double\<close> (exact for 32-bit values)\<close>
  "of_cint i = real_of_int (sint i)"

definition get_discount_factor :: "InterestRates \<Rightarrow> cint \<Rightarrow> error + real" where
  "get_discount_factor c t =
     (case bracket c t of
        Inl e \<Rightarrow> Inl e
      | Inr (t_left, r_left, t_right, r_right) \<Rightarrow>
          if t_right - t_left = 0 then Inl NotFinite
          else
            (let r_eff = (r_left * of_cint (t_right - t) + r_right * of_cint (t - t_left)) /
                         of_cint (t_right - t_left)
             in Inr (exp (- r_eff * of_cint t / 360))))"

fun insert_or_assign :: "(cint \<times> real) list \<Rightarrow> cint \<Rightarrow> real \<Rightarrow> (cint \<times> real) list" where
  "insert_or_assign [] k v = [(k, v)]"
| "insert_or_assign ((k', v') # kvs) k v =
     (if sint k < sint k' then (k, v) # (k', v') # kvs
      else if k = k' then (k, v) # kvs
      else (k', v') # insert_or_assign kvs k v)"

definition add_rate :: "cint \<Rightarrow> real \<Rightarrow> InterestRates \<Rightarrow> InterestRates" where
  "add_rate tenor rate c = c\<lparr>rates := insert_or_assign (rates c) tenor rate\<rparr>"

definition at_add :: "(cint \<times> real) list \<Rightarrow> cint \<Rightarrow> real \<Rightarrow> error + (cint \<times> real) list" where
  \<comment> \<open>\<open>rates.at(tenor) += d\<close>; \<open>rates.at(tenor) -= d\<close> is \<open>at_add\<close> with \<open>v - d\<close>, see \<open>at_sub\<close>\<close>
  "at_add kvs tenor d =
     (case map_of kvs tenor of
        None \<Rightarrow> Inl OutOfRange
      | Some r \<Rightarrow> Inr (map (\<lambda>(k, v). if k = tenor then (k, v + d) else (k, v)) kvs))"

definition at_sub :: "(cint \<times> real) list \<Rightarrow> cint \<Rightarrow> real \<Rightarrow> error + (cint \<times> real) list" where
  "at_sub kvs tenor d =
     (case map_of kvs tenor of
        None \<Rightarrow> Inl OutOfRange
      | Some r \<Rightarrow> Inr (map (\<lambda>(k, v). if k = tenor then (k, v - d) else (k, v)) kvs))"

text \<open>
  \<open>struct finally\<close> (here \<open>Finally\<close>, the lower-case word being reserved) holds the
  closure that its destructor runs. The closure captured \<open>this\<close>, so in the model it is
  a function of the curve at the time the scope ends.
\<close>

record Finally =
  func :: "InterestRates \<Rightarrow> error + InterestRates"

definition bump_tenor :: "cint \<Rightarrow> real \<Rightarrow> InterestRates \<Rightarrow> error + (InterestRates \<times> Finally)" where
  "bump_tenor tenor bump_amount c =
     (case at_add (rates c) tenor bump_amount of
        Inl e \<Rightarrow> Inl e
      | Inr kvs \<Rightarrow>
          Inr (c\<lparr>rates := kvs\<rparr>,
               \<lparr>func = (\<lambda>c'. case at_sub (rates c') tenor bump_amount of
                                Inl e \<Rightarrow> Inl e
                              | Inr kvs' \<Rightarrow> Inr (c'\<lparr>rates := kvs'\<rparr>))\<rparr>))"

fun bump_loop :: "cint list \<Rightarrow> real \<Rightarrow> (cint \<times> real) list \<Rightarrow> error + (cint \<times> real) list" where
  \<comment> \<open>\<open>for (auto const& tenor : get_tenors()) rates.at(tenor) += bump_amount;\<close>\<close>
  "bump_loop [] d kvs = Inr kvs"
| "bump_loop (tenor # tenors) d kvs =
     (case at_add kvs tenor d of
        Inl e \<Rightarrow> Inl e
      | Inr kvs' \<Rightarrow> bump_loop tenors d kvs')"

fun unbump_loop :: "cint list \<Rightarrow> real \<Rightarrow> (cint \<times> real) list \<Rightarrow> error + (cint \<times> real) list" where
  \<comment> \<open>\<open>for (auto const& tenor : get_tenors()) rates.at(tenor) -= bump_amount;\<close>\<close>
  "unbump_loop [] d kvs = Inr kvs"
| "unbump_loop (tenor # tenors) d kvs =
     (case at_sub kvs tenor d of
        Inl e \<Rightarrow> Inl e
      | Inr kvs' \<Rightarrow> unbump_loop tenors d kvs')"

definition bump_curve :: "real \<Rightarrow> InterestRates \<Rightarrow> error + (InterestRates \<times> Finally)" where
  "bump_curve bump_amount c =
     (case bump_loop (get_tenors c) bump_amount (rates c) of
        Inl e \<Rightarrow> Inl e
      | Inr kvs \<Rightarrow>
          Inr (c\<lparr>rates := kvs\<rparr>,
               \<lparr>func = (\<lambda>c'. case unbump_loop (get_tenors c') bump_amount (rates c') of
                                Inl e \<Rightarrow> Inl e
                              | Inr kvs' \<Rightarrow> Inr (c'\<lparr>rates := kvs'\<rparr>))\<rparr>))"

section \<open>FXSpot: one spot rate against USD\<close>

record FXSpot =
  spot :: real

definition FXSpot_default :: FXSpot where
  \<comment> \<open>\<open>double spot{1.0}\<close>\<close>
  "FXSpot_default = \<lparr>spot = 1\<rparr>"

definition set_spot :: "real \<Rightarrow> FXSpot \<Rightarrow> FXSpot" where
  "set_spot s fx = fx\<lparr>spot := s\<rparr>"

definition get_spot :: "FXSpot \<Rightarrow> real" where
  "get_spot fx = spot fx"

definition FXSpot_div :: "FXSpot \<Rightarrow> FXSpot \<Rightarrow> error + real" where
  \<comment> \<open>\<open>operator/\<close>: \<open>spot / FX_term.get_spot()\<close>\<close>
  "FXSpot_div fx FX_term =
     (if get_spot FX_term = 0 then Inl NotFinite else Inr (spot fx / get_spot FX_term))"

section \<open>DateNotionals: one ledger\<close>

text \<open>
  \<open>std::unordered_map<int, int> date_notionals\<close> is an association list with distinct
  keys. The iteration order of an unordered map is unspecified; the list keeps the order
  of first insertion. No result below depends on that order, since \<open>double\<close> addition is
  exact in this model.
\<close>

record DateNotionals =
  date_notionals :: "(cint \<times> cint) list"
  delta :: cint

definition DateNotionals_default :: DateNotionals where
  "DateNotionals_default = \<lparr>date_notionals = [], delta = 0\<rparr>"

definition get_maturities :: "DateNotionals \<Rightarrow> cint list" where
  "get_maturities l = map fst (date_notionals l)"

fun subscript_add :: "(cint \<times> cint) list \<Rightarrow> cint \<Rightarrow> cint \<Rightarrow> (cint \<times> cint) list" where
  \<comment> \<open>\<open>date_notionals[date] += notional\<close>: a missing key is first inserted with value 0\<close>
  "subscript_add [] date notional = [(date, 0 + notional)]"
| "subscript_add ((d, n) # dns) date notional =
     (if d = date then (d, n + notional) # dns
      else (d, n) # subscript_add dns date notional)"

definition add_trade :: "cint \<Rightarrow> cint \<Rightarrow> DateNotionals \<Rightarrow> DateNotionals" where
  "add_trade date notional l =
     l\<lparr>date_notionals := subscript_add (date_notionals l) date notional\<rparr>"

definition set_delta :: "cint \<Rightarrow> DateNotionals \<Rightarrow> DateNotionals" where
  "set_delta d l = l\<lparr>delta := d\<rparr>"

fun transform_pvs :: "(cint \<times> cint \<Rightarrow> error + real) \<Rightarrow> (cint \<times> cint) list \<Rightarrow> error + real list" where
  \<comment> \<open>\<open>std::transform\<close> into \<open>pvs\<close>, stopping at the first failure of the lambda\<close>
  "transform_pvs f [] = Inr []"
| "transform_pvs f (kv # kvs) =
     (case f kv of
        Inl e \<Rightarrow> Inl e
      | Inr pv \<Rightarrow>
          (case transform_pvs f kvs of
             Inl e \<Rightarrow> Inl e
           | Inr pvs \<Rightarrow> Inr (pv # pvs)))"

definition get_book_value :: "DateNotionals \<Rightarrow> (cint \<Rightarrow> error + real) \<Rightarrow> error + real" where
  "get_book_value l discount_factors =
     (case transform_pvs
             (\<lambda>(date, notional).
                let eff_date = date - delta l in
                case discount_factors eff_date of
                  Inl e \<Rightarrow> Inl e
                | Inr df \<Rightarrow> Inr (of_cint notional * df))
             (date_notionals l) of
        Inl e \<Rightarrow> Inl e
      | Inr pvs \<Rightarrow> Inr (sum_list pvs))"

section \<open>RiskManagementSystem: the engine\<close>

text \<open>
  The three \<open>std::unordered_map\<close>s keyed by currency are partial functions. The engine's
  own \<open>delta\<close> is the field \<open>rms_delta\<close> (the ledger already has a field \<open>delta\<close>).
  The engine's \<open>get_discount_factor\<close>, \<open>get_tenors\<close> and \<open>get_maturities\<close> carry the prefix
  \<open>rms_\<close>, and the two overloads of \<open>get_DV01\<close> are \<open>get_DV01_tenor\<close> (currency and
  tenor) and \<open>get_DV01\<close> (currency only).
\<close>

record RiskManagementSystem =
  currency_rates :: "Currency \<rightharpoonup> InterestRates"
  currency_spot :: "Currency \<rightharpoonup> FXSpot"
  currency_notionals :: "Currency \<rightharpoonup> DateNotionals"
  rms_delta :: cint

definition EPS :: real where
  "EPS = 1 / 10000"

definition at_map :: "('k \<rightharpoonup> 'v) \<Rightarrow> 'k \<Rightarrow> error + 'v" where
  \<comment> \<open>\<open>unordered_map::at\<close>\<close>
  "at_map m k = (case m k of None \<Rightarrow> Inl OutOfRange | Some v \<Rightarrow> Inr v)"

definition optional_value :: "'a option \<Rightarrow> error + 'a" where
  \<comment> \<open>\<open>std::optional::value\<close>\<close>
  "optional_value x = (case x of None \<Rightarrow> Inl BadOptionalAccess | Some v \<Rightarrow> Inr v)"

definition check_rates :: "RiskManagementSystem \<Rightarrow> Currency \<Rightarrow> bool" where
  "check_rates s ccy = (if currency_rates s ccy = None then False else True)"

definition check_maturities :: "RiskManagementSystem \<Rightarrow> Currency \<Rightarrow> bool" where
  "check_maturities s ccy = (currency_notionals s ccy \<noteq> None)"

definition check_tenor_val :: "cint \<Rightarrow> bool" where
  "check_tenor_val tenor = (if sint tenor < 0 then False else True)"

definition check_tenor_rate :: "RiskManagementSystem \<Rightarrow> Currency \<Rightarrow> cint \<Rightarrow> bool" where
  "check_tenor_rate s ccy tenor =
     (if \<not> check_rates s ccy then False
      else (case currency_rates s ccy of
              None \<Rightarrow> False
            | Some c \<Rightarrow> if \<not> check_tenor c tenor then False else True))"

definition check_fx :: "RiskManagementSystem \<Rightarrow> Currency \<Rightarrow> bool" where
  "check_fx s ccy = (if currency_spot s ccy = None then False else True)"

definition rms_get_maturities :: "RiskManagementSystem \<Rightarrow> Currency \<Rightarrow> error + cint list" where
  "rms_get_maturities s ccy =
     (if \<not> check_maturities s ccy then Inr []
      else (case at_map (currency_notionals s) ccy of
              Inl e \<Rightarrow> Inl e
            | Inr l \<Rightarrow> Inr (get_maturities l)))"

definition rms_get_tenors :: "RiskManagementSystem \<Rightarrow> Currency \<Rightarrow> error + cint list" where
  "rms_get_tenors s ccy =
     (if \<not> check_rates s ccy then Inr []
      else (case at_map (currency_rates s) ccy of
              Inl e \<Rightarrow> Inl e
            | Inr c \<Rightarrow> Inr (get_tenors c)))"

definition rms_get_discount_factor ::
  "RiskManagementSystem \<Rightarrow> Currency \<Rightarrow> cint \<Rightarrow> error + real option" where
  "rms_get_discount_factor s ccy tenor =
     (if \<not> check_rates s ccy \<or> \<not> check_tenor_val tenor then Inr None
      else (case at_map (currency_rates s) ccy of
              Inl e \<Rightarrow> Inl e
            | Inr c \<Rightarrow>
                (case get_discount_factor c tenor of
                   Inl e \<Rightarrow> Inl e
                 | Inr df \<Rightarrow> Inr (Some df))))"

definition get_fx_spot ::
  "RiskManagementSystem \<Rightarrow> Currency \<times> Currency \<Rightarrow> error + real option" where
  "get_fx_spot s ccy_pair =
     (case ccy_pair of (base, term) \<Rightarrow>
        if \<not> check_fx s base \<or> \<not> check_fx s term then Inr None
        else (case at_map (currency_spot s) base of
                Inl e \<Rightarrow> Inl e
              | Inr fx_base \<Rightarrow>
                  (case at_map (currency_spot s) term of
                     Inl e \<Rightarrow> Inl e
                   | Inr fx_term \<Rightarrow>
                       (case FXSpot_div fx_base fx_term of
                          Inl e \<Rightarrow> Inl e
                        | Inr x \<Rightarrow> Inr (Some x)))))"

text \<open>
  The two lambdas \<open>get_bumped_value\<close>. The bump is acquired, the book value is computed
  with the bumped curve, and the destructor of \<open>unbump_later\<close> runs when the lambda's scope
  ends, whatever the book value was. The result is the value and the curve left behind.
\<close>

definition get_bumped_value_tenor ::
  "DateNotionals \<Rightarrow> cint \<Rightarrow> real \<Rightarrow> InterestRates \<Rightarrow> (error + real) \<times> InterestRates" where
  "get_bumped_value_tenor trades tenor bump rates0 =
     (case bump_tenor tenor bump rates0 of
        Inl e \<Rightarrow> (Inl e, rates0)
      | Inr (rates1, unbump_later) \<Rightarrow>
          (let v = get_book_value trades (\<lambda>tenor. get_discount_factor rates1 tenor) in
           case func unbump_later rates1 of
             Inl e \<Rightarrow> (Inl e, rates1)
           | Inr rates2 \<Rightarrow> (v, rates2)))"

definition get_bumped_value_curve ::
  "DateNotionals \<Rightarrow> real \<Rightarrow> InterestRates \<Rightarrow> (error + real) \<times> InterestRates" where
  "get_bumped_value_curve trades bump rates0 =
     (case bump_curve bump rates0 of
        Inl e \<Rightarrow> (Inl e, rates0)
      | Inr (rates1, unbump_later) \<Rightarrow>
          (let v = get_book_value trades (\<lambda>tenor. get_discount_factor rates1 tenor) in
           case func unbump_later rates1 of
             Inl e \<Rightarrow> (Inl e, rates1)
           | Inr rates2 \<Rightarrow> (v, rates2)))"

definition put_rates ::
  "RiskManagementSystem \<Rightarrow> Currency \<Rightarrow> InterestRates \<Rightarrow> RiskManagementSystem" where
  \<comment> \<open>the reference \<open>rates\<close> aliases \<open>currency_rates.at(ccy)\<close>: writes go to the engine\<close>
  "put_rates s ccy c = s\<lparr>currency_rates := (currency_rates s)(ccy \<mapsto> c)\<rparr>"

definition central_difference ::
  "RiskManagementSystem \<Rightarrow> Currency \<Rightarrow> (real \<Rightarrow> InterestRates \<Rightarrow> (error + real) \<times> InterestRates) \<Rightarrow>
     InterestRates \<Rightarrow> (error + real option) \<times> RiskManagementSystem" where
  \<comment> \<open>the return expression shared by both overloads, operands evaluated left to right:
      \<open>get_fx_spot({USD, ccy}).value() * -(get_bumped_value(EPS) - get_bumped_value(-EPS)) / 2\<close>\<close>
  "central_difference s ccy get_bumped_value rates0 =
     (case (case get_fx_spot s (USD, ccy) of Inl e \<Rightarrow> Inl e | Inr x \<Rightarrow> optional_value x) of
        Inl e \<Rightarrow> (Inl e, s)
      | Inr fx \<Rightarrow>
          (case get_bumped_value EPS rates0 of
             (Inl e, rates1) \<Rightarrow> (Inl e, put_rates s ccy rates1)
           | (Inr up, rates1) \<Rightarrow>
               (case get_bumped_value (- EPS) rates1 of
                  (Inl e, rates2) \<Rightarrow> (Inl e, put_rates s ccy rates2)
                | (Inr down, rates2) \<Rightarrow>
                    (Inr (Some (fx * - (up - down) / 2)), put_rates s ccy rates2))))"

definition get_DV01_tenor ::
  "RiskManagementSystem \<Rightarrow> Currency \<Rightarrow> cint \<Rightarrow> (error + real option) \<times> RiskManagementSystem" where
  "get_DV01_tenor s ccy tenor =
     (if \<not> check_tenor_rate s ccy tenor \<or> \<not> check_fx s ccy then (Inr None, s)
      else (case at_map (currency_rates s) ccy of
              Inl e \<Rightarrow> (Inl e, s)
            | Inr rates0 \<Rightarrow>
                (case at_map (currency_notionals s) ccy of
                   Inl e \<Rightarrow> (Inl e, s)
                 | Inr trades \<Rightarrow>
                     central_difference s ccy (get_bumped_value_tenor trades tenor) rates0)))"

definition get_DV01 ::
  "RiskManagementSystem \<Rightarrow> Currency \<Rightarrow> (error + real option) \<times> RiskManagementSystem" where
  "get_DV01 s ccy =
     (if \<not> check_rates s ccy \<or> \<not> check_fx s ccy then (Inr None, s)
      else (case at_map (currency_rates s) ccy of
              Inl e \<Rightarrow> (Inl e, s)
            | Inr rates0 \<Rightarrow>
                (case at_map (currency_notionals s) ccy of
                   Inl e \<Rightarrow> (Inl e, s)
                 | Inr trades \<Rightarrow>
                     central_difference s ccy (get_bumped_value_curve trades) rates0)))"

section \<open>Ingestion\<close>

text \<open>
  The constructor reads two files line by line, matches each line against a regular
  expression and splits it into fields. The model starts from the fields: a rates line is
  the integer read by \<open>std::stoi\<close>, the unit character, the currency string and the rate;
  an FX line is the currency string and the spot; a trade line is the notional, the
  currency string and the payment date. A line that matches no expression is only logged.
\<close>

datatype rates_line =
    IR cint char string real
  | FX string real
  | UnrecognizedRatesLine

datatype portfolio_line =
    Trade cint string cint
  | UnrecognizedPortfolioLine

definition parse_rate :: "cint \<Rightarrow> char \<Rightarrow> string \<Rightarrow> real \<Rightarrow> RiskManagementSystem \<Rightarrow> RiskManagementSystem" where
  "parse_rate tenor0 name key_param rate s =
     (if \<not> check_tenor_val tenor0 then s
      else
        (case (if name = CHR ''D'' then Some (tenor0 * 1)
               else if name = CHR ''W'' then Some (tenor0 * 7)
               else if name = CHR ''M'' then Some (tenor0 * 30)
               else if name = CHR ''Y'' then Some (tenor0 * 360)
               else None) of
           None \<Rightarrow> s
         | Some tenor \<Rightarrow>
             (case to_ccy key_param of
                None \<Rightarrow> s
              | Some ccy \<Rightarrow>
                  s\<lparr>currency_rates := (currency_rates s)
                      (ccy \<mapsto> add_rate tenor rate
                                 (case currency_rates s ccy of
                                    None \<Rightarrow> InterestRates_default
                                  | Some c \<Rightarrow> c))\<rparr>)))"

definition parse_fx :: "string \<Rightarrow> real \<Rightarrow> RiskManagementSystem \<Rightarrow> RiskManagementSystem" where
  "parse_fx key_param spot_value s =
     (case to_ccy key_param of
        None \<Rightarrow> s
      | Some ccy \<Rightarrow>
          s\<lparr>currency_spot := (currency_spot s)
              (ccy \<mapsto> set_spot spot_value
                         (case currency_spot s ccy of
                            None \<Rightarrow> FXSpot_default
                          | Some fx \<Rightarrow> fx))\<rparr>)"

definition parse_trade :: "cint \<Rightarrow> string \<Rightarrow> cint \<Rightarrow> RiskManagementSystem \<Rightarrow> RiskManagementSystem" where
  "parse_trade notional key_param payment_date s =
     (case to_ccy key_param of
        None \<Rightarrow> s
      | Some ccy \<Rightarrow>
          (let tenor = payment_date - rms_delta s in
           if \<not> check_tenor_val tenor then s
           else
             (let l = (case currency_notionals s ccy of
                         None \<Rightarrow> set_delta (rms_delta s) DateNotionals_default
                       | Some l \<Rightarrow> l)
              in s\<lparr>currency_notionals := (currency_notionals s)
                      (ccy \<mapsto> add_trade payment_date notional l)\<rparr>)))"

fun read_rates_line :: "rates_line \<Rightarrow> RiskManagementSystem \<Rightarrow> RiskManagementSystem" where
  "read_rates_line (IR tenor0 name key_param rate) s = parse_rate tenor0 name key_param rate s"
| "read_rates_line (FX key_param spot_value) s = parse_fx key_param spot_value s"
| "read_rates_line UnrecognizedRatesLine s = s"

fun read_portfolio_line :: "portfolio_line \<Rightarrow> RiskManagementSystem \<Rightarrow> RiskManagementSystem" where
  "read_portfolio_line (Trade notional key_param payment_date) s =
     parse_trade notional key_param payment_date s"
| "read_portfolio_line UnrecognizedPortfolioLine s = s"

definition RiskManagementSystem_members :: RiskManagementSystem where
  \<comment> \<open>the default member initialisers; \<open>delta\<close> is not read before line 106 assigns it\<close>
  "RiskManagementSystem_members =
     \<lparr>currency_rates = Map.empty,
      currency_spot = [USD \<mapsto> FXSpot_default],
      currency_notionals = Map.empty,
      rms_delta = 0\<rparr>"

definition construct :: "rates_line list \<Rightarrow> portfolio_line list \<Rightarrow> RiskManagementSystem" where
  \<comment> \<open>the constructor, once both files have been opened\<close>
  "construct in_rates in_portfolio =
     fold read_portfolio_line in_portfolio
       ((fold read_rates_line in_rates RiskManagementSystem_members)\<lparr>rms_delta := 42940\<rparr>)"

text \<open>
  The states of an engine seen through its public interface: the constructed one, and
  the ones that the two sensitivity queries leave behind (the other queries do not write).
\<close>

inductive reachable :: "RiskManagementSystem \<Rightarrow> bool" where
  constructed: "reachable (construct in_rates in_portfolio)"
| after_DV01_tenor: "reachable s \<Longrightarrow> reachable (snd (get_DV01_tenor s ccy tenor))"
| after_DV01: "reachable s \<Longrightarrow> reachable (snd (get_DV01 s ccy))"

code_pred reachable .

section \<open>The curve in rounded arithmetic\<close>

text \<open>
  To speak about bit-for-bit equality, the arithmetic of the curve is written a
  second time with a rounding function \<open>rnd\<close> applied to the result of every \<open>double\<close>
  operation, in the order in which C++ evaluates the expression (no fused operations).
  With the identity for \<open>rnd\<close> these are the definitions above; with \<open>round64\<close> they
  are IEEE binary64 arithmetic in the default rounding mode (to nearest, ties to even),
  for results in the normal range: the exponent is not bounded, so there is no overflow
  and no subnormal number, and there is one zero. \<open>std::exp\<close> is taken to be correctly
  rounded. The conversion of an \<open>int\<close> to \<open>double\<close> is exact.
\<close>

definition round_half_even :: "real \<Rightarrow> int" where
  "round_half_even y =
     (let f = \<lfloor>y\<rfloor> in
      if y - of_int f < 1 / 2 then f
      else if 1 / 2 < y - of_int f then f + 1
      else if even f then f else f + 1)"

definition round64 :: "real \<Rightarrow> real" where
  \<comment> \<open>the nearest number with a 53-bit significand: a multiple of \<open>2 ^ (e - 52)\<close> where
      \<open>2 ^ e \<le> \<bar>x\<bar> < 2 ^ (e + 1)\<close>\<close>
  "round64 x =
     (if x = 0 then 0
      else (let u = 2 powr of_int (\<lfloor>log 2 \<bar>x\<bar>\<rfloor> - 52)
            in u * of_int (round_half_even (x / u))))"

definition at_add_fl ::
  "(real \<Rightarrow> real) \<Rightarrow> (cint \<times> real) list \<Rightarrow> cint \<Rightarrow> real \<Rightarrow> error + (cint \<times> real) list" where
  "at_add_fl rnd kvs tenor d =
     (case map_of kvs tenor of
        None \<Rightarrow> Inl OutOfRange
      | Some r \<Rightarrow> Inr (map (\<lambda>(k, v). if k = tenor then (k, rnd (v + d)) else (k, v)) kvs))"

definition at_sub_fl ::
  "(real \<Rightarrow> real) \<Rightarrow> (cint \<times> real) list \<Rightarrow> cint \<Rightarrow> real \<Rightarrow> error + (cint \<times> real) list" where
  "at_sub_fl rnd kvs tenor d =
     (case map_of kvs tenor of
        None \<Rightarrow> Inl OutOfRange
      | Some r \<Rightarrow> Inr (map (\<lambda>(k, v). if k = tenor then (k, rnd (v - d)) else (k, v)) kvs))"

definition bump_tenor_fl ::
  "(real \<Rightarrow> real) \<Rightarrow> cint \<Rightarrow> real \<Rightarrow> InterestRates \<Rightarrow> error + (InterestRates \<times> Finally)" where
  "bump_tenor_fl rnd tenor bump_amount c =
     (case at_add_fl rnd (rates c) tenor bump_amount of
        Inl e \<Rightarrow> Inl e
      | Inr kvs \<Rightarrow>
          Inr (c\<lparr>rates := kvs\<rparr>,
               \<lparr>func = (\<lambda>c'. case at_sub_fl rnd (rates c') tenor bump_amount of
                                Inl e \<Rightarrow> Inl e
                              | Inr kvs' \<Rightarrow> Inr (c'\<lparr>rates := kvs'\<rparr>))\<rparr>))"

fun bump_loop_fl ::
  "(real \<Rightarrow> real) \<Rightarrow> cint list \<Rightarrow> real \<Rightarrow> (cint \<times> real) list \<Rightarrow> error + (cint \<times> real) list" where
  "bump_loop_fl rnd [] d kvs = Inr kvs"
| "bump_loop_fl rnd (tenor # tenors) d kvs =
     (case at_add_fl rnd kvs tenor d of
        Inl e \<Rightarrow> Inl e
      | Inr kvs' \<Rightarrow> bump_loop_fl rnd tenors d kvs')"

fun unbump_loop_fl ::
  "(real \<Rightarrow> real) \<Rightarrow> cint list \<Rightarrow> real \<Rightarrow> (cint \<times> real) list \<Rightarrow> error + (cint \<times> real) list" where
  "unbump_loop_fl rnd [] d kvs = Inr kvs"
| "unbump_loop_fl rnd (tenor # tenors) d kvs =
     (case at_sub_fl rnd kvs tenor d of
        Inl e \<Rightarrow> Inl e
      | Inr kvs' \<Rightarrow> unbump_loop_fl rnd tenors d kvs')"

definition bump_curve_fl ::
  "(real \<Rightarrow> real) \<Rightarrow> real \<Rightarrow> InterestRates \<Rightarrow> error + (InterestRates \<times> Finally)" where
  "bump_curve_fl rnd bump_amount c =
     (case bump_loop_fl rnd (get_tenors c) bump_amount (rates c) of
        Inl e \<Rightarrow> Inl e
      | Inr kvs \<Rightarrow>
          Inr (c\<lparr>rates := kvs\<rparr>,
               \<lparr>func = (\<lambda>c'. case unbump_loop_fl rnd (get_tenors c') bump_amount (rates c') of
                                Inl e \<Rightarrow> Inl e
                              | Inr kvs' \<Rightarrow> Inr (c'\<lparr>rates := kvs'\<rparr>))\<rparr>))"

definition get_discount_factor_fl :: "(real \<Rightarrow> real) \<Rightarrow> InterestRates \<Rightarrow> cint \<Rightarrow> error + real" where
  "get_discount_factor_fl rnd c t =
     (case bracket c t of
        Inl e \<Rightarrow> Inl e
      | Inr (t_left, r_left, t_right, r_right) \<Rightarrow>
          if t_right - t_left = 0 then Inl NotFinite
          else
            (let r_eff = rnd (rnd (rnd (r_left * of_cint (t_right - t)) +
                                   rnd (r_right * of_cint (t - t_left))) /
                              of_cint (t_right - t_left))
             in Inr (rnd (exp (rnd (rnd (- r_eff * of_cint t) / 360))))))"

definition bump_release ::
  "(InterestRates \<Rightarrow> error + (InterestRates \<times> Finally)) \<Rightarrow> InterestRates \<Rightarrow> error + InterestRates" where
  \<comment> \<open>a full cycle: a scope that acquires the bump and ends, running the destructor\<close>
  "bump_release bump c =
     (case bump c of
        Inl e \<Rightarrow> Inl e
      | Inr (c', unbump_later) \<Rightarrow> func unbump_later c')"

section \<open>Notions used by the statements\<close>

definition std_map :: "(cint \<times> real) list \<Rightarrow> bool" where
  \<comment> \<open>the representation invariant of \<open>std::map<int, double>\<close>: strictly ascending keys\<close>
  "std_map kvs = sorted_wrt (\<lambda>a b. sint a < sint b) (map fst kvs)"

definition spec_r_eff :: "real \<Rightarrow> int \<Rightarrow> real \<Rightarrow> int \<Rightarrow> int \<Rightarrow> real" where
  \<comment> \<open>the specification's linear spot-rate interpolation, over unbounded integers\<close>
  "spec_r_eff r_left t_left r_right t_right t =
     (r_left * real_of_int (t_right - t) + r_right * real_of_int (t - t_left)) /
     real_of_int (t_right - t_left)"

definition spec_discount :: "real \<Rightarrow> int \<Rightarrow> real" where
  \<comment> \<open>the specification's discount factor for an effective rate, 360-day count\<close>
  "spec_discount r_eff t = exp (- r_eff * real_of_int t / 360)"

definition rates_bumped_at :: "cint \<Rightarrow> real \<Rightarrow> InterestRates \<Rightarrow> InterestRates" where
  \<comment> \<open>the curve with the rate at one tenor raised by \<open>b\<close>\<close>
  "rates_bumped_at tenor b c =
     c\<lparr>rates := map (\<lambda>(k, v). if k = tenor then (k, v + b) else (k, v)) (rates c)\<rparr>"

definition rates_bumped_all :: "real \<Rightarrow> InterestRates \<Rightarrow> InterestRates" where
  \<comment> \<open>the curve with every rate raised by \<open>b\<close>\<close>
  "rates_bumped_all b c = c\<lparr>rates := map (\<lambda>(k, v). (k, v + b)) (rates c)\<rparr>"

definition curves_nonempty :: "RiskManagementSystem \<Rightarrow> bool" where
  \<comment> \<open>the invariant of claim C9: no curve of the engine is empty\<close>
  "curves_nonempty s = (\<forall>ccy c. currency_rates s ccy = Some c \<longrightarrow> rates c \<noteq> [])"

section \<open>Signed 32-bit arithmetic\<close>

lemma sint_sub_nonneg:
  fixes a b :: cint
  assumes "0 \<le> sint a" "0 \<le> sint b"
  shows "sint (a - b) = sint a - sint b"
proof -
  have "sint a < 2 ^ 31" "sint b < 2 ^ 31"
    using sint_lt [of a] sint_lt [of b] by simp_all
  then show ?thesis
    using assms by (simp add: sint_word_diff signed_take_bit_int_eq_self)
qed

lemma sint_one_minus:
  fixes d :: cint
  assumes "0 \<le> sint d"
  shows "sint (1 - d) = 1 - sint d"
proof -
  have "sint d < 2 ^ 31"
    using sint_lt [of d] by simp
  then show ?thesis
    using assms by (simp add: sint_word_diff signed_take_bit_int_eq_self)
qed

section \<open>The iterator returned by \<open>upper_bound\<close>\<close>

lemma upper_bound_le: "upper_bound kvs t \<le> length kvs"
  by (induction kvs t rule: upper_bound.induct) auto

lemma upper_bound_before:
  "std_map kvs \<Longrightarrow> i < upper_bound kvs t \<Longrightarrow> sint (fst (kvs ! i)) \<le> sint t"
proof (induction kvs t arbitrary: i rule: upper_bound.induct)
  case (1 t)
  then show ?case by simp
next
  case (2 k v kvs t)
  then show ?case
    by (cases i) (auto simp: std_map_def split: if_splits)
qed

lemma upper_bound_after:
  "std_map kvs \<Longrightarrow> upper_bound kvs t \<le> i \<Longrightarrow> i < length kvs \<Longrightarrow> sint t < sint (fst (kvs ! i))"
proof (induction kvs t arbitrary: i rule: upper_bound.induct)
  case (1 t)
  then show ?case by simp
next
  case (2 k v kvs t)
  show ?case
  proof (cases "sint t < sint k")
    case True
    show ?thesis
    proof (cases i)
      case 0
      with True show ?thesis by simp
    next
      case (Suc j)
      with 2(3,4) have "sint k < sint (fst (kvs ! j))" 
        using 2(2) by (auto simp: std_map_def)
      with True Suc show ?thesis by simp
    qed
  next
    case False
    with 2 show ?thesis
      by (cases i) (auto simp: std_map_def)
  qed
qed

lemma std_map_keys_mono:
  "std_map kvs \<Longrightarrow> i < j \<Longrightarrow> j < length kvs \<Longrightarrow> sint (fst (kvs ! i)) < sint (fst (kvs ! j))"
  unfolding std_map_def using sorted_wrt_nth_less [of "\<lambda>a b. sint a < sint b" "map fst kvs" i j]
  by simp

section \<open>The three branches of \<open>get_discount_factor\<close>\<close>

lemma deref_in: "it < length kvs \<Longrightarrow> deref kvs it = Inr (kvs ! it)"
  by (simp add: deref_def)

lemma nth_key_nonneg:
  "\<forall>k\<in>set (get_tenors c). 0 \<le> sint k \<Longrightarrow> i < length (rates c) \<Longrightarrow> 0 \<le> sint (fst (rates c ! i))"
  by (simp add: get_tenors_def)

lemma gdf_pin:
  assumes wf: "std_map (rates c)" and ne: "rates c \<noteq> []"
    and t0: "0 \<le> sint t" and it: "upper_bound (rates c) t = 0"
  shows "get_discount_factor c t =
           Inr (spec_discount (spec_r_eff 0 0 (snd (rates c ! 0)) (sint (fst (rates c ! 0))) (sint t)) (sint t))"
proof -
  obtain k v where kv: "rates c ! 0 = (k, v)" by (cases "rates c ! 0")
  have len: "0 < length (rates c)" using ne by simp
  have lt: "sint t < sint k"
    using upper_bound_after [OF wf, of t 0] it len kv by simp
  then have k0: "k \<noteq> 0" using t0 by auto
  have br: "bracket c t = Inr (0, 0, k, v)"
    using it len kv by (simp add: bracket_def deref_in)
  show ?thesis
    using k0 by (simp add: get_discount_factor_def br kv spec_discount_def spec_r_eff_def of_cint_def)
qed

lemma gdf_mid:
  assumes wf: "std_map (rates c)"
    and keys: "\<forall>k\<in>set (get_tenors c). 0 \<le> sint k"
    and t0: "0 \<le> sint t" and it: "upper_bound (rates c) t = Suc i"
    and len: "Suc i < length (rates c)"
  shows "get_discount_factor c t =
           Inr (spec_discount
                  (spec_r_eff (snd (rates c ! i)) (sint (fst (rates c ! i)))
                     (snd (rates c ! Suc i)) (sint (fst (rates c ! Suc i))) (sint t)) (sint t))"
proof -
  obtain k1 v1 where kv1: "rates c ! i = (k1, v1)" by (cases "rates c ! i")
  obtain k2 v2 where kv2: "rates c ! Suc i = (k2, v2)" by (cases "rates c ! Suc i")
  have n1: "0 \<le> sint k1" using nth_key_nonneg [OF keys, of i] len kv1 by simp
  have n2: "0 \<le> sint k2" using nth_key_nonneg [OF keys len] kv2 by simp
  have lt: "sint k1 < sint k2"
    using std_map_keys_mono [OF wf, of i "Suc i"] len kv1 kv2 by simp
  then have ne: "k2 - k1 \<noteq> 0" by auto
  have br: "bracket c t = Inr (k1, v1, k2, v2)"
    using it len kv1 kv2 by (simp add: bracket_def deref_in)
  show ?thesis
    using ne by (simp add: get_discount_factor_def br kv1 kv2 spec_discount_def spec_r_eff_def
        of_cint_def sint_sub_nonneg n1 n2 t0)
qed

lemma gdf_flat:
  assumes wf: "std_map (rates c)" and ne: "rates c \<noteq> []"
    and keys: "\<forall>k\<in>set (get_tenors c). 0 \<le> sint k"
    and t0: "0 \<le> sint t" and it: "upper_bound (rates c) t = length (rates c)"
  shows "get_discount_factor c t = Inr (spec_discount (snd (last (rates c))) (sint t))"
proof -
  let ?n = "length (rates c)"
  have len: "0 < ?n" using ne by simp
  obtain k v where kv: "rates c ! (?n - 1) = (k, v)" by (cases "rates c ! (?n - 1)")
  have lastkv: "last (rates c) = (k, v)" using kv ne by (simp add: last_conv_nth)
  have n1: "0 \<le> sint k" using nth_key_nonneg [OF keys, of "?n - 1"] len kv by simp
  have le: "sint k \<le> sint t"
    using upper_bound_before [OF wf, of "?n - 1" t] it len kv by simp
  have d0: "0 \<le> sint (t - k)" using le by (simp add: sint_sub_nonneg n1 t0)
  have e1: "k + 1 - t = 1 - (t - k)" by simp
  have s1: "sint (k + 1 - t) = 1 - (sint t - sint k)"
    unfolding e1 using sint_one_minus [OF d0] by (simp add: sint_sub_nonneg n1 t0)
  have br: "bracket c t = Inr (k, v, k + 1, v)"
    using it len kv by (simp add: bracket_def deref_in)
  have "(v * real_of_int (1 - (sint t - sint k)) + v * real_of_int (sint t - sint k)) = v"
    by (simp add: algebra_simps)
  then show ?thesis
    by (simp add: get_discount_factor_def br lastkv spec_discount_def of_cint_def s1
        sint_sub_nonneg n1 t0)
qed

section \<open>The boundary rules of the specification\<close>

lemma std_map_keys_le_index:
  assumes "std_map kvs" "i < length kvs" "j < length kvs"
    and "sint (fst (kvs ! i)) \<le> sint (fst (kvs ! j))"
  shows "i \<le> j"
proof (rule ccontr)
  assume "\<not> i \<le> j"
  then have "j < i" by simp
  from std_map_keys_mono [OF assms(1) this assms(2)] assms(4) show False by simp
qed

lemma spec_r_eff_const: "a \<noteq> b \<Longrightarrow> spec_r_eff r a r b t = r"
proof -
  assume ab: "a \<noteq> b"
  have "r * real_of_int (b - t) + r * real_of_int (t - a) = r * real_of_int (b - a)"
    by (simp add: algebra_simps)
  then show ?thesis using ab by (simp add: spec_r_eff_def)
qed

lemma spec_r_eff_left: "a \<noteq> b \<Longrightarrow> spec_r_eff r1 a r2 b a = r1"
  by (simp add: spec_r_eff_def)

lemma spec_r_eff_right: "a \<noteq> b \<Longrightarrow> spec_r_eff r1 a r2 b b = r2"
  by (simp add: spec_r_eff_def)

lemma spec_discount_pinned_at_min:
  "spec_discount (spec_r_eff 0 0 r k k) k = spec_discount r k"
  by (cases "k = 0") (simp_all add: spec_discount_def spec_r_eff_def)

lemma upper_bound_cases:
  assumes "rates c \<noteq> []"
  obtains (pin) "upper_bound (rates c) t = 0"
  | (mid) j where "upper_bound (rates c) t = Suc j" "Suc j < length (rates c)"
  | (flat) "upper_bound (rates c) t = length (rates c)"
proof (cases "upper_bound (rates c) t")
  case 0
  then show ?thesis by (rule pin)
next
  case (Suc j)
  show ?thesis
  proof (cases "Suc j < length (rates c)")
    case True
    with Suc show ?thesis by (rule mid)
  next
    case False
    with Suc upper_bound_le [of "rates c" t] have "upper_bound (rates c) t = length (rates c)"
      by simp
    then show ?thesis by (rule flat)
  qed
qed

lemma rule_pinned:
  assumes wf: "std_map (rates c)" and ne: "rates c \<noteq> []"
    and keys: "\<forall>k\<in>set (get_tenors c). 0 \<le> sint k"
    and t0: "0 \<le> sint t"
    and le: "sint t \<le> sint (fst (hd (rates c)))"
  shows "get_discount_factor c t =
           Inr (spec_discount (spec_r_eff 0 0 (snd (hd (rates c))) (sint (fst (hd (rates c)))) (sint t)) (sint t))"
proof -
  let ?kvs = "rates c"
  have hd0: "hd ?kvs = ?kvs ! 0" using ne by (simp add: hd_conv_nth)
  have len: "0 < length ?kvs" using ne by simp
  show ?thesis
    using ne
  proof (cases rule: upper_bound_cases [where t = t])
    case pin
    from gdf_pin [OF wf ne t0 pin] show ?thesis by (simp add: hd0)
  next
    case (mid j)
    have kj: "sint (fst (?kvs ! j)) \<le> sint t"
      using upper_bound_before [OF wf, of j t] mid by simp
    have j0: "j = 0"
      using std_map_keys_le_index [OF wf, of j 0] mid len kj le by (simp add: hd0)
    have teq: "sint t = sint (fst (?kvs ! 0))" using kj le j0 by (simp add: hd0)
    have lt: "sint (fst (?kvs ! 0)) < sint (fst (?kvs ! Suc 0))"
      using std_map_keys_mono [OF wf, of 0 "Suc 0"] mid j0 by simp
    show ?thesis
      using gdf_mid [OF wf keys t0 mid] lt
      by (simp add: j0 hd0 teq spec_r_eff_left spec_discount_pinned_at_min)
  next
    case flat
    let ?n = "length ?kvs"
    have kn: "sint (fst (?kvs ! (?n - 1))) \<le> sint t"
      using upper_bound_before [OF wf, of "?n - 1" t] flat len by simp
    have n0: "?n - 1 = 0"
      using std_map_keys_le_index [OF wf, of "?n - 1" 0] len kn le by (simp add: hd0)
    have teq: "sint t = sint (fst (?kvs ! 0))" using kn le n0 by (simp add: hd0)
    have l0: "last ?kvs = ?kvs ! 0" using ne n0 by (simp add: last_conv_nth)
    show ?thesis
      using gdf_flat [OF wf ne keys t0 flat]
      by (simp add: l0 hd0 teq spec_discount_pinned_at_min)
  qed
qed

lemma rule_flat:
  assumes wf: "std_map (rates c)" and ne: "rates c \<noteq> []"
    and keys: "\<forall>k\<in>set (get_tenors c). 0 \<le> sint k"
    and t0: "0 \<le> sint t"
    and ge: "sint (fst (last (rates c))) \<le> sint t"
    and tr: "sint (fst (last (rates c))) < t_right"
  shows "get_discount_factor c t =
           Inr (spec_discount
                  (spec_r_eff (snd (last (rates c))) (sint (fst (last (rates c))))
                     (snd (last (rates c))) t_right (sint t)) (sint t))"
proof -
  let ?kvs = "rates c"
  let ?n = "length ?kvs"
  have len: "0 < ?n" using ne by simp
  have lastn: "last ?kvs = ?kvs ! (?n - 1)" using ne by (simp add: last_conv_nth)
  have it: "upper_bound ?kvs t = ?n"
  proof (rule ccontr)
    assume "upper_bound ?kvs t \<noteq> ?n"
    with upper_bound_le [of ?kvs t] have lt: "upper_bound ?kvs t < ?n" by simp
    then have "upper_bound ?kvs t \<le> ?n - 1" by simp
    from upper_bound_after [OF wf this] len have "sint t < sint (fst (?kvs ! (?n - 1)))" by simp
    with ge show False by (simp add: lastn)
  qed
  from tr have "sint (fst (last ?kvs)) \<noteq> t_right" by simp
  then show ?thesis
    using gdf_flat [OF wf ne keys t0 it] by (simp add: spec_r_eff_const)
qed

lemma rule_adjacent:
  assumes wf: "std_map (rates c)" and ne: "rates c \<noteq> []"
    and keys: "\<forall>k\<in>set (get_tenors c). 0 \<le> sint k"
    and t0: "0 \<le> sint t"
    and i: "Suc i < length (rates c)"
    and lo: "sint (fst (rates c ! i)) \<le> sint t"
    and hi: "sint t \<le> sint (fst (rates c ! Suc i))"
  shows "get_discount_factor c t =
           Inr (spec_discount
                  (spec_r_eff (snd (rates c ! i)) (sint (fst (rates c ! i)))
                     (snd (rates c ! Suc i)) (sint (fst (rates c ! Suc i))) (sint t)) (sint t))"
proof -
  let ?kvs = "rates c"
  let ?n = "length ?kvs"
  have ki: "sint (fst (?kvs ! i)) < sint (fst (?kvs ! Suc i))"
    using std_map_keys_mono [OF wf, of i "Suc i"] i by simp
  show ?thesis
    using ne
  proof (cases rule: upper_bound_cases [where t = t])
    case pin
    from upper_bound_after [OF wf, of t i] pin i lo show ?thesis by simp
  next
    case (mid j)
    have kj: "sint (fst (?kvs ! j)) \<le> sint t"
      using upper_bound_before [OF wf, of j t] mid by simp
    have kj1: "sint t < sint (fst (?kvs ! Suc j))"
      using upper_bound_after [OF wf, of t "Suc j"] mid by simp
    have kjj: "sint (fst (?kvs ! j)) < sint (fst (?kvs ! Suc j))"
      using kj kj1 by simp
    have "i \<le> j"
    proof (rule ccontr)
      assume "\<not> i \<le> j"
      then have "Suc j \<le> i" by simp
      from upper_bound_after [OF wf, of t i] this mid i lo show False by simp
    qed
    moreover have "j \<le> Suc i"
      using std_map_keys_le_index [OF wf, of j "Suc i"] mid i kj hi by simp
    ultimately consider "j = i" | "j = Suc i" by linarith
    then show ?thesis
    proof cases
      case 1
      with gdf_mid [OF wf keys t0 mid] show ?thesis by simp
    next
      case 2
      have teq: "sint t = sint (fst (?kvs ! Suc i))" using kj hi 2 by simp
      show ?thesis
        using gdf_mid [OF wf keys t0 mid] ki kjj
        by (simp add: 2 teq spec_r_eff_left spec_r_eff_right)
    qed
  next
    case flat
    have len: "0 < ?n" using ne by simp
    have kn: "sint (fst (?kvs ! (?n - 1))) \<le> sint t"
      using upper_bound_before [OF wf, of "?n - 1" t] flat len by simp
    have "?n - 1 \<le> Suc i"
      using std_map_keys_le_index [OF wf, of "?n - 1" "Suc i"] len i kn hi by simp
    with i have n1: "?n - 1 = Suc i" by simp
    have teq: "sint t = sint (fst (?kvs ! Suc i))" using kn hi n1 by simp
    have l0: "last ?kvs = ?kvs ! Suc i" using ne n1 by (simp add: last_conv_nth)
    show ?thesis
      using gdf_flat [OF wf ne keys t0 flat] ki
      by (simp add: l0 teq spec_r_eff_right)
  qed
qed

lemma bracket_exists:
  fixes t :: cint
  assumes wf: "std_map (rates c)" and ne: "rates c \<noteq> []"
    and lo: "sint (fst (hd (rates c))) < sint t"
    and hi: "sint t < sint (fst (last (rates c)))"
  shows "\<exists>i. Suc i < length (rates c) \<and> sint (fst (rates c ! i)) \<le> sint t \<and>
             sint t < sint (fst (rates c ! Suc i))"
  using ne
proof (cases rule: upper_bound_cases [where t = t])
  case pin
  from upper_bound_after [OF wf, of t 0] pin ne lo show ?thesis
    by (simp add: hd_conv_nth)
next
  case (mid j)
  from upper_bound_before [OF wf, of j t] upper_bound_after [OF wf, of t "Suc j"] mid
  show ?thesis by auto
next
  case flat
  from upper_bound_before [OF wf, of "length (rates c) - 1" t] flat ne hi show ?thesis
    by (simp add: last_conv_nth)
qed

text \<open>
  Claim C1. For a curve with at least one rate point, stored tenors that are not negative,
  and a tenor \<open>t \<ge> 0\<close>, \<open>get_discount_factor\<close> returns \<open>exp (- r_eff * t / 360)\<close>, where
  \<open>r_eff\<close> is the specification's linear spot-rate interpolation over the pair of points
  that the boundary rules select: for \<open>t\<close> at or below the smallest stored tenor the pair
  \<open>(0, 0)\<close> and the smallest point; for \<open>t\<close> at or beyond the largest stored tenor the
  last rate on both sides, with any right end beyond the last tenor; and for \<open>t\<close> between
  two adjacent stored points, these two. Strictly between the smallest and the largest
  tenor such an adjacent pair exists. Where two rules apply to the same \<open>t\<close> they give the
  same value. (At \<open>t\<close> equal to a smallest tenor 0, the pinned pair has both ends at 0 and
  the quotient \<open>r_eff\<close> has denominator 0; the exponent is then \<open>r_eff * 0\<close>. The code does
  not take the pinned branch there.)
\<close>

theorem get_discount_factor_interpolates:
  assumes "std_map (rates c)" and "rates c \<noteq> []"
    and "\<forall>k\<in>set (get_tenors c). 0 \<le> sint k"
    and "0 \<le> sint t"
  shows
    "(sint t \<le> sint (fst (hd (rates c))) \<longrightarrow>
        get_discount_factor c t =
          Inr (spec_discount
                 (spec_r_eff 0 0 (snd (hd (rates c))) (sint (fst (hd (rates c)))) (sint t))
                 (sint t))) \<and>
     (sint (fst (last (rates c))) \<le> sint t \<longrightarrow>
        (\<forall>t_right. sint (fst (last (rates c))) < t_right \<longrightarrow>
           get_discount_factor c t =
             Inr (spec_discount
                    (spec_r_eff (snd (last (rates c))) (sint (fst (last (rates c))))
                       (snd (last (rates c))) t_right (sint t))
                    (sint t)))) \<and>
     (\<forall>i. Suc i < length (rates c) \<and> sint (fst (rates c ! i)) \<le> sint t \<and>
           sint t \<le> sint (fst (rates c ! Suc i)) \<longrightarrow>
        get_discount_factor c t =
          Inr (spec_discount
                 (spec_r_eff (snd (rates c ! i)) (sint (fst (rates c ! i)))
                    (snd (rates c ! Suc i)) (sint (fst (rates c ! Suc i))) (sint t))
                 (sint t))) \<and>
     (sint (fst (hd (rates c))) < sint t \<and> sint t < sint (fst (last (rates c))) \<longrightarrow>
        (\<exists>i. Suc i < length (rates c) \<and> sint (fst (rates c ! i)) \<le> sint t \<and>
             sint t < sint (fst (rates c ! Suc i))))"
  using rule_pinned [OF assms] rule_flat [OF assms] rule_adjacent [OF assms]
    bracket_exists [OF assms(1,2)]
  by blast

theorem get_discount_factor_interpolates_witness:
  "get_discount_factor \<lparr>rates = [(30, 2 / 100), (60, 25 / 1000)]\<rparr> 30 = Inr (exp (- (2 / 100) * 30 / 360)) \<and>
   get_discount_factor \<lparr>rates = [(30, 2 / 100), (60, 25 / 1000)]\<rparr> 45 =
     Inr (exp (- ((2 / 100 * 15 + 25 / 1000 * 15) / 30) * 45 / 360)) \<and>
   get_discount_factor \<lparr>rates = [(30, 2 / 100), (60, 25 / 1000)]\<rparr> 10 =
     Inr (exp (- ((0 * 20 + 2 / 100 * 10) / 30) * 10 / 360)) \<and>
   get_discount_factor \<lparr>rates = [(30, 2 / 100), (60, 25 / 1000)]\<rparr> 9999 =
     Inr (exp (- (25 / 1000) * 9999 / 360))"
proof -
  let ?c = "\<lparr>rates = [(30, 2 / 100), (60, 25 / 1000)]\<rparr> :: InterestRates"
  have wf: "std_map (rates ?c)" by (simp add: std_map_def)
  have ne: "rates ?c \<noteq> []" by simp
  have keys: "\<forall>k\<in>set (get_tenors ?c). 0 \<le> sint k" by (simp add: get_tenors_def)
  have a: "get_discount_factor ?c 30 = Inr (exp (- (2 / 100) * 30 / 360))"
    using get_discount_factor_interpolates [OF wf ne keys, of 30]
    by (simp add: spec_discount_def spec_r_eff_def)
  have b: "get_discount_factor ?c 45 = Inr (exp (- ((2 / 100 * 15 + 25 / 1000 * 15) / 30) * 45 / 360))"
    using get_discount_factor_interpolates [OF wf ne keys, of 45]
    by (simp add: spec_discount_def spec_r_eff_def)
  have c: "get_discount_factor ?c 10 = Inr (exp (- ((0 * 20 + 2 / 100 * 10) / 30) * 10 / 360))"
    using get_discount_factor_interpolates [OF wf ne keys, of 10]
    by (simp add: spec_discount_def spec_r_eff_def)
  have d: "get_discount_factor ?c 9999 = Inr (exp (- (25 / 1000) * 9999 / 360))"
    using get_discount_factor_interpolates
            [OF wf ne keys, of 9999, THEN conjunct2, THEN conjunct1, rule_format, where t_right = 61]
    by (simp add: spec_discount_def spec_r_eff_def)
  from a b c d show ?thesis by blast
qed

section \<open>Bumps and their release\<close>

lemma check_tenor_iff: "check_tenor c tenor \<longleftrightarrow> tenor \<in> set (get_tenors c)"
  by (simp add: check_tenor_def get_tenors_def map_of_eq_None_iff)

lemma at_add_keys: "at_add kvs tenor d = Inr kvs' \<Longrightarrow> map fst kvs' = map fst kvs"
  by (auto simp: at_add_def split: option.splits)

lemma at_sub_keys: "at_sub kvs tenor d = Inr kvs' \<Longrightarrow> map fst kvs' = map fst kvs"
  by (auto simp: at_sub_def split: option.splits)

lemma at_add_succeeds:
  "tenor \<in> set (map fst kvs) \<Longrightarrow> \<exists>kvs'. at_add kvs tenor d = Inr kvs'"
  by (cases "map_of kvs tenor") (auto simp: at_add_def map_of_eq_None_iff)

lemma at_sub_succeeds:
  "tenor \<in> set (map fst kvs) \<Longrightarrow> \<exists>kvs'. at_sub kvs tenor d = Inr kvs'"
  by (cases "map_of kvs tenor") (auto simp: at_sub_def map_of_eq_None_iff)

lemma bump_loop_keys: "bump_loop tenors d kvs = Inr kvs' \<Longrightarrow> map fst kvs' = map fst kvs"
proof (induction tenors arbitrary: kvs)
  case Nil
  then show ?case by simp
next
  case (Cons tenor tenors)
  then show ?case
    by (auto split: sum.splits dest: at_add_keys)
qed

lemma unbump_loop_keys: "unbump_loop tenors d kvs = Inr kvs' \<Longrightarrow> map fst kvs' = map fst kvs"
proof (induction tenors arbitrary: kvs)
  case Nil
  then show ?case by simp
next
  case (Cons tenor tenors)
  then show ?case
    by (auto split: sum.splits dest: at_sub_keys)
qed

lemma bump_loop_succeeds:
  "set tenors \<subseteq> set (map fst kvs) \<Longrightarrow> \<exists>kvs'. bump_loop tenors d kvs = Inr kvs'"
proof (induction tenors arbitrary: kvs)
  case Nil
  then show ?case by simp
next
  case (Cons tenor tenors)
  from Cons.prems have mem: "tenor \<in> set (map fst kvs)"
    and sub: "set tenors \<subseteq> set (map fst kvs)" by simp_all
  from at_add_succeeds [OF mem] obtain kvs1 where a: "at_add kvs tenor d = Inr kvs1"
    by blast
  then have eq: "map fst kvs1 = map fst kvs" by (rule at_add_keys)
  have "set tenors \<subseteq> set (map fst kvs1)" unfolding eq by (rule sub)
  from Cons.IH [OF this] a show ?case by simp
qed

lemma unbump_loop_succeeds:
  "set tenors \<subseteq> set (map fst kvs) \<Longrightarrow> \<exists>kvs'. unbump_loop tenors d kvs = Inr kvs'"
proof (induction tenors arbitrary: kvs)
  case Nil
  then show ?case by simp
next
  case (Cons tenor tenors)
  from Cons.prems have mem: "tenor \<in> set (map fst kvs)"
    and sub: "set tenors \<subseteq> set (map fst kvs)" by simp_all
  from at_sub_succeeds [OF mem] obtain kvs1 where a: "at_sub kvs tenor d = Inr kvs1"
    by blast
  then have eq: "map fst kvs1 = map fst kvs" by (rule at_sub_keys)
  have "set tenors \<subseteq> set (map fst kvs1)" unfolding eq by (rule sub)
  from Cons.IH [OF this] a show ?case by simp
qed

lemma bump_tenor_keys:
  assumes b: "bump_tenor tenor b c = Inr (c', fin)"
  shows "get_tenors c' = get_tenors c"
    and "func fin c1 = Inr c2 \<Longrightarrow> get_tenors c2 = get_tenors c1"
proof -
  from b obtain kvs where a: "at_add (rates c) tenor b = Inr kvs"
    and c': "c' = c\<lparr>rates := kvs\<rparr>"
    and fin: "fin = \<lparr>func = (\<lambda>c'. case at_sub (rates c') tenor b of
                                  Inl e \<Rightarrow> Inl e
                                | Inr kvs' \<Rightarrow> Inr (c'\<lparr>rates := kvs'\<rparr>))\<rparr>"
    by (auto simp: bump_tenor_def split: sum.splits)
  from at_add_keys [OF a] show "get_tenors c' = get_tenors c"
    by (simp add: c' get_tenors_def)
  assume "func fin c1 = Inr c2"
  then obtain kvs2 where s: "at_sub (rates c1) tenor b = Inr kvs2" and c2: "c2 = c1\<lparr>rates := kvs2\<rparr>"
    by (auto simp: fin split: sum.splits)
  from at_sub_keys [OF s] show "get_tenors c2 = get_tenors c1"
    by (simp add: c2 get_tenors_def)
qed

lemma bump_curve_keys:
  assumes b: "bump_curve b c = Inr (c', fin)"
  shows "get_tenors c' = get_tenors c"
    and "func fin c1 = Inr c2 \<Longrightarrow> get_tenors c2 = get_tenors c1"
proof -
  from b obtain kvs where a: "bump_loop (get_tenors c) b (rates c) = Inr kvs"
    and c': "c' = c\<lparr>rates := kvs\<rparr>"
    and fin: "fin = \<lparr>func = (\<lambda>c'. case unbump_loop (get_tenors c') b (rates c') of
                                  Inl e \<Rightarrow> Inl e
                                | Inr kvs' \<Rightarrow> Inr (c'\<lparr>rates := kvs'\<rparr>))\<rparr>"
    by (auto simp: bump_curve_def split: sum.splits)
  from bump_loop_keys [OF a] show "get_tenors c' = get_tenors c"
    by (simp add: c' get_tenors_def)
  assume "func fin c1 = Inr c2"
  then obtain kvs2 where s: "unbump_loop (get_tenors c1) b (rates c1) = Inr kvs2"
    and c2: "c2 = c1\<lparr>rates := kvs2\<rparr>"
    by (auto simp: fin split: sum.splits)
  from unbump_loop_keys [OF s] show "get_tenors c2 = get_tenors c1"
    by (simp add: c2 get_tenors_def)
qed

lemma bump_tenor_succeeds:
  assumes "check_tenor c tenor"
  shows "\<exists>c' fin. bump_tenor tenor b c = Inr (c', fin) \<and> (\<exists>c''. func fin c' = Inr c'')"
proof -
  from assms obtain kvs1 where a: "at_add (rates c) tenor b = Inr kvs1"
    using at_add_succeeds [of tenor "rates c" b] by (auto simp: check_tenor_iff get_tenors_def)
  then have "map fst kvs1 = map fst (rates c)" by (rule at_add_keys)
  with assms obtain kvs2 where "at_sub kvs1 tenor b = Inr kvs2"
    using at_sub_succeeds [of tenor kvs1 b] by (auto simp: check_tenor_iff get_tenors_def)
  with a show ?thesis by (simp add: bump_tenor_def)
qed

lemma bump_curve_succeeds:
  "\<exists>c' fin. bump_curve b c = Inr (c', fin) \<and> (\<exists>c''. func fin c' = Inr c'')"
proof -
  obtain kvs1 where a: "bump_loop (get_tenors c) b (rates c) = Inr kvs1"
    using bump_loop_succeeds [of "get_tenors c" "rates c" b] by (auto simp: get_tenors_def)
  then have "map fst kvs1 = map fst (rates c)" by (rule bump_loop_keys)
  then obtain kvs2 where "unbump_loop (map fst kvs1) b kvs1 = Inr kvs2"
    using unbump_loop_succeeds [of "map fst kvs1" kvs1 b] by auto
  with a show ?thesis by (simp add: bump_curve_def get_tenors_def)
qed

text \<open>
  Claim C10. \<open>bump_tenor\<close>, \<open>bump_curve\<close> and the releases they return never change the
  stored tenors of a curve: \<open>get_tenors\<close> and \<open>check_tenor\<close> give the same answers before the
  bump, during the scope and after the release. A bump of a stored tenor and a bump of the
  whole curve succeed, and so does their release; a bump of a tenor that is not stored
  throws before it writes anything.
\<close>

theorem bumps_keep_tenors:
  "(\<forall>c' fin. bump_tenor tenor b c = Inr (c', fin) \<longrightarrow>
      get_tenors c' = get_tenors c \<and> (\<forall>k. check_tenor c' k = check_tenor c k) \<and>
      (\<forall>c1 c2. func fin c1 = Inr c2 \<longrightarrow>
         get_tenors c2 = get_tenors c1 \<and> (\<forall>k. check_tenor c2 k = check_tenor c1 k))) \<and>
   (\<forall>c' fin. bump_curve b c = Inr (c', fin) \<longrightarrow>
      get_tenors c' = get_tenors c \<and> (\<forall>k. check_tenor c' k = check_tenor c k) \<and>
      (\<forall>c1 c2. func fin c1 = Inr c2 \<longrightarrow>
         get_tenors c2 = get_tenors c1 \<and> (\<forall>k. check_tenor c2 k = check_tenor c1 k))) \<and>
   (check_tenor c tenor \<longrightarrow>
      (\<exists>c' fin. bump_tenor tenor b c = Inr (c', fin) \<and> (\<exists>c''. func fin c' = Inr c''))) \<and>
   (\<not> check_tenor c tenor \<longrightarrow> bump_tenor tenor b c = Inl OutOfRange) \<and>
   (\<exists>c' fin. bump_curve b c = Inr (c', fin) \<and> (\<exists>c''. func fin c' = Inr c''))"
proof (intro conjI allI impI)
  show "bump_tenor tenor b c = Inl OutOfRange" if "\<not> check_tenor c tenor"
    using that by (simp add: bump_tenor_def at_add_def check_tenor_def)
qed (auto simp: check_tenor_iff bump_tenor_keys bump_curve_keys
       intro: bump_tenor_succeeds bump_curve_succeeds)

theorem bumps_keep_tenors_witness:
  "\<exists>c' fin c''.
     bump_tenor 30 (1 / 10000) \<lparr>rates = [(30, 2 / 100), (60, 25 / 1000)]\<rparr> = Inr (c', fin) \<and>
     get_tenors c' = [30, 60] \<and> func fin c' = Inr c'' \<and> get_tenors c'' = [30, 60]"
proof -
  let ?c = "\<lparr>rates = [(30, 2 / 100), (60, 25 / 1000)]\<rparr> :: InterestRates"
  have ct: "check_tenor ?c 30" by (simp add: check_tenor_def)
  have gt: "get_tenors ?c = [30, 60]" by (simp add: get_tenors_def)
  note th = bumps_keep_tenors [of 30 "1 / 10000" ?c]
  from th ct obtain c' fin c'' where
    b: "bump_tenor 30 (1 / 10000) ?c = Inr (c', fin)" and r: "func fin c' = Inr c''"
    by blast
  from th b have k1: "get_tenors c' = get_tenors ?c" by blast
  from th b r have "get_tenors c'' = get_tenors c'" by blast
  with k1 gt b r show ?thesis by auto
qed

section \<open>The ledger\<close>

lemma subscript_add_same:
  "map_of (subscript_add dns date notional) date =
     Some ((case map_of dns date of None \<Rightarrow> 0 | Some n \<Rightarrow> n) + notional)"
  by (induction dns date notional rule: subscript_add.induct) auto

lemma subscript_add_other:
  "d \<noteq> date \<Longrightarrow> map_of (subscript_add dns date notional) d = map_of dns d"
  by (induction dns date notional rule: subscript_add.induct) auto

lemma subscript_add_keys:
  "set (map fst (subscript_add dns date notional)) = insert date (set (map fst dns))"
  by (induction dns date notional rule: subscript_add.induct) auto

lemma subscript_add_distinct:
  "distinct (map fst dns) \<Longrightarrow> distinct (map fst (subscript_add dns date notional))"
proof (induction dns date notional rule: subscript_add.induct)
  case (1 date notional)
  then show ?case by simp
next
  case (2 d n dns date notional)
  have "set (map fst (subscript_add dns date notional)) = insert date (set (map fst dns))"
    by (rule subscript_add_keys)
  with 2 show ?case by auto
qed

lemma count_list_distinct: "distinct xs \<Longrightarrow> x \<in> set xs \<Longrightarrow> count_list xs x = 1"
  by (induction xs) (auto simp: count_list_0_iff)

text \<open>
  Claim C8. \<open>add_trade\<close> accumulates: after two trades on the same date with notionals
  \<open>n1\<close> and \<open>n2\<close>, \<open>get_maturities\<close> reports that date exactly once and the notional stored
  for it is what was there before (0 for a new date) plus \<open>n1\<close> plus \<open>n2\<close>, in 32-bit
  arithmetic; so on a date that was absent it is \<open>n1 + n2\<close>. The other dates keep their notionals.
\<close>

theorem add_trade_accumulates:
  assumes "distinct (get_maturities l)"
  shows "count_list (get_maturities (add_trade date n2 (add_trade date n1 l))) date = 1 \<and>
         map_of (date_notionals (add_trade date n2 (add_trade date n1 l))) date =
           Some ((case map_of (date_notionals l) date of None \<Rightarrow> 0 | Some n \<Rightarrow> n) + n1 + n2) \<and>
         (date \<notin> set (get_maturities l) \<longrightarrow>
            map_of (date_notionals (add_trade date n2 (add_trade date n1 l))) date = Some (n1 + n2)) \<and>
         (\<forall>d. d \<noteq> date \<longrightarrow>
            map_of (date_notionals (add_trade date n2 (add_trade date n1 l))) d =
              map_of (date_notionals l) d)"
proof -
  let ?dns1 = "subscript_add (date_notionals l) date n1"
  let ?dns2 = "subscript_add ?dns1 date n2"
  have dn: "date_notionals (add_trade date n2 (add_trade date n1 l)) = ?dns2"
    by (simp add: add_trade_def)
  have "distinct (map fst ?dns2)"
    using assms by (simp add: get_maturities_def subscript_add_distinct)
  moreover have "date \<in> set (map fst ?dns2)"
    by (simp only: subscript_add_keys) simp
  ultimately have one: "count_list (map fst ?dns2) date = 1"
    by (rule count_list_distinct)
  have val: "map_of ?dns2 date =
      Some ((case map_of (date_notionals l) date of None \<Rightarrow> 0 | Some n \<Rightarrow> n) + n1 + n2)"
    by (simp add: subscript_add_same)
  have new: "map_of ?dns2 date = Some (n1 + n2)" if "date \<notin> set (get_maturities l)"
  proof -
    from that have "map_of (date_notionals l) date = None"
      by (simp add: get_maturities_def map_of_eq_None_iff)
    with val show ?thesis by simp
  qed
  have other: "map_of ?dns2 d = map_of (date_notionals l) d" if "d \<noteq> date" for d
    using that by (simp add: subscript_add_other)
  from one val new other show ?thesis
    by (simp add: dn get_maturities_def)
qed

theorem add_trade_accumulates_witness:
  "get_maturities (add_trade 43000 200 (add_trade 43000 100 DateNotionals_default)) = [43000] \<and>
   map_of (date_notionals (add_trade 43000 200 (add_trade 43000 100 DateNotionals_default))) 43000
     = Some 300"
proof -
  have d: "distinct (get_maturities DateNotionals_default)"
    by (simp add: get_maturities_def DateNotionals_default_def)
  have a: "43000 \<notin> set (get_maturities DateNotionals_default)"
    by (simp add: get_maturities_def DateNotionals_default_def)
  from add_trade_accumulates [OF d, of 43000 200 100] a
  have "map_of (date_notionals (add_trade 43000 200 (add_trade 43000 100 DateNotionals_default))) 43000
     = Some (100 + 200)" by blast
  moreover have "get_maturities (add_trade 43000 200 (add_trade 43000 100 DateNotionals_default)) = [43000]"
    by (simp add: get_maturities_def add_trade_def DateNotionals_default_def)
  ultimately show ?thesis by simp
qed

lemma transform_pvs_total:
  "transform_pvs (\<lambda>(date, notional). Inr (g date notional)) dns =
     Inr (map (\<lambda>(date, notional). g date notional) dns)"
  by (induction dns) auto

text \<open>
  Claim C7. For a ledger with valuation delta \<open>d\<close> and a discount function that returns a
  number at every tenor, \<open>get_book_value\<close> returns the sum, over all stored pairs of a date
  and a notional, of the notional times the discount function at the date minus \<open>d\<close>
  (the subtraction is the 32-bit one of the code).
\<close>

theorem get_book_value_sum:
  "get_book_value l (\<lambda>t. Inr (discount_fn t)) =
     Inr (\<Sum>(date, notional) \<leftarrow> date_notionals l. of_cint notional * discount_fn (date - delta l))"
  by (simp add: get_book_value_def transform_pvs_total)

theorem get_book_value_sum_witness:
  "get_book_value \<lparr>date_notionals = [(43300, 100), (43120, 50)], delta = 42940\<rparr>
     (\<lambda>t. Inr (if t = 360 then 1 / 2 else 1 / 5)) = Inr 60"
  using get_book_value_sum
          [of "\<lparr>date_notionals = [(43300, 100), (43120, 50)], delta = 42940\<rparr>"
              "\<lambda>t. if t = 360 then 1 / 2 else 1 / 5"]
  by (simp add: of_cint_def)

section \<open>FX cross rates\<close>

lemma get_fx_spot_Some:
  assumes "currency_spot s base = Some fx_base" and "currency_spot s term = Some fx_term"
  shows "get_fx_spot s (base, term) = 
           (if spot fx_term = 0 then Inl NotFinite else Inr (Some (spot fx_base / spot fx_term)))"
  using assms by (simp add: get_fx_spot_def check_fx_def at_map_def FXSpot_div_def get_spot_def)

lemma get_fx_spot_None:
  assumes "currency_spot s base = None \<or> currency_spot s term = None"
  shows "get_fx_spot s (base, term) = Inr None"
  using assms by (auto simp: get_fx_spot_def check_fx_def)

text \<open>
  Claim C6, as the code has it. For currencies \<open>base\<close> and \<open>term\<close> that both have a spot
  entry, \<open>get_fx_spot\<close> returns the quotient of the two spots when the spot of \<open>term\<close> is
  not zero, and an IEEE infinity or NaN (no number) when it is zero. So
  \<open>get_fx_spot (ccy, ccy)\<close> is 1 for a currency whose spot is not zero. When either
  currency has no spot entry the result is the explicit absence.
\<close>

theorem get_fx_spot_cross:
  "(\<forall>fx_base fx_term.
      currency_spot s base = Some fx_base \<and> currency_spot s term = Some fx_term \<and>
      spot fx_term \<noteq> 0 \<longrightarrow>
      get_fx_spot s (base, term) = Inr (Some (spot fx_base / spot fx_term))) \<and>
   (\<forall>fx_base fx_term.
      currency_spot s base = Some fx_base \<and> currency_spot s term = Some fx_term \<and>
      spot fx_term = 0 \<longrightarrow>
      get_fx_spot s (base, term) = Inl NotFinite) \<and>
   (\<forall>fx. currency_spot s ccy = Some fx \<and> spot fx \<noteq> 0 \<longrightarrow>
      get_fx_spot s (ccy, ccy) = Inr (Some 1)) \<and>
   (currency_spot s base = None \<or> currency_spot s term = None \<longrightarrow>
      get_fx_spot s (base, term) = Inr None)"
  by (auto simp: get_fx_spot_Some get_fx_spot_None)

lemma construct_EUR_spot:
  "currency_spot (construct [FX ''EUR'' (11213 / 10000), FX ''JPY'' (1 / 100)] []) =
     [USD \<mapsto> \<lparr>spot = 1\<rparr>, EUR \<mapsto> \<lparr>spot = 11213 / 10000\<rparr>, JPY \<mapsto> \<lparr>spot = 1 / 100\<rparr>]"
  by (simp add: construct_def RiskManagementSystem_members_def parse_fx_def to_ccy_def strings_def
      currency_of_index_def FXSpot_default_def set_spot_def)

theorem get_fx_spot_cross_witness:
  "get_fx_spot (construct [FX ''EUR'' (11213 / 10000), FX ''JPY'' (1 / 100)] []) (EUR, JPY) =
     Inr (Some (11213 / 100)) \<and>
   get_fx_spot (construct [FX ''EUR'' (11213 / 10000), FX ''JPY'' (1 / 100)] []) (EUR, EUR) =
     Inr (Some 1) \<and>
   get_fx_spot (construct [FX ''EUR'' (11213 / 10000), FX ''JPY'' (1 / 100)] []) (USD, CAD) =
     Inr None"
proof -
  let ?s = "construct [FX ''EUR'' (11213 / 10000), FX ''JPY'' (1 / 100)] []"
  have e: "currency_spot ?s EUR = Some \<lparr>spot = 11213 / 10000\<rparr>"
    and j: "currency_spot ?s JPY = Some \<lparr>spot = 1 / 100\<rparr>"
    and c: "currency_spot ?s CAD = None"
    by (simp_all add: construct_EUR_spot)
  have "get_fx_spot ?s (EUR, JPY) = Inr (Some (11213 / 100))"
    using get_fx_spot_cross [of ?s EUR JPY] e j by simp
  moreover have "get_fx_spot ?s (EUR, EUR) = Inr (Some 1)"
    using get_fx_spot_cross [of ?s _ _ EUR] e by simp
  moreover have "get_fx_spot ?s (USD, CAD) = Inr None"
    using get_fx_spot_cross [of ?s USD CAD] c by simp
  ultimately show ?thesis by simp
qed

text \<open>
  The claim as stated fails for a stored spot of zero, which the FX line
  \<open>FX.SPOT.EUR 0\<close> stores: the cross of EUR with itself is then \<open>0.0 / 0.0\<close>, not 1.
\<close>

theorem get_fx_spot_zero_spot_counterexample:
  "currency_spot (construct [FX ''EUR'' 0] []) EUR = Some \<lparr>spot = 0\<rparr> \<and>
   get_fx_spot (construct [FX ''EUR'' 0] []) (EUR, EUR) = Inl NotFinite \<and>
   get_fx_spot (construct [FX ''EUR'' 0] []) (EUR, EUR) \<noteq> Inr (Some 1)"
proof -
  have e: "currency_spot (construct [FX ''EUR'' 0] []) EUR = Some \<lparr>spot = 0\<rparr>"
    by (simp add: construct_def RiskManagementSystem_members_def parse_fx_def to_ccy_def
        strings_def currency_of_index_def FXSpot_default_def set_spot_def)
  from get_fx_spot_Some [OF e e] e show ?thesis by simp
qed

section \<open>The sensitivity queries without a ledger\<close>

lemma construct_USD_1Y:
  "construct [IR 1 (CHR ''Y'') ''USD'' (1 / 20)] [] =
     \<lparr>currency_rates = [USD \<mapsto> \<lparr>rates = [(360, 1 / 20)]\<rparr>],
      currency_spot = [USD \<mapsto> \<lparr>spot = 1\<rparr>],
      currency_notionals = Map.empty,
      rms_delta = 42940\<rparr>"
  by (simp add: construct_def RiskManagementSystem_members_def parse_rate_def check_tenor_val_def
      to_ccy_def strings_def currency_of_index_def FXSpot_default_def add_rate_def
      InterestRates_default_def)

lemma central_difference_not_None:
  "fst (central_difference s ccy get_bumped_value rates0) \<noteq> Inr None"
  by (auto simp: central_difference_def split: sum.splits prod.splits)

lemma get_DV01_tenor_None_iff:
  "fst (get_DV01_tenor s ccy tenor) = Inr None \<longleftrightarrow>
     \<not> check_tenor_rate s ccy tenor \<or> \<not> check_fx s ccy"
  by (auto simp: get_DV01_tenor_def central_difference_not_None split: sum.splits)

text \<open>
  Claim C4, where the code departs from it. \<open>get_DV01 (ccy, tenor)\<close> returns the explicit
  absence exactly when \<open>ccy\<close> has no curve, or its curve has no rate at \<open>tenor\<close>, or
  \<open>ccy\<close> has no spot entry. But when these preconditions hold (for the overload without
  a tenor: a curve and a spot entry) and the currency has no ledger,
  \<open>currency_notionals.at(ccy)\<close> throws \<open>std::out_of_range\<close>: the query returns no value.
  The engine is left unchanged. The engine built from the single rates line
  \<open>IR.1Y.USD 0.05\<close> and no trade is such a state for \<open>get_DV01(USD, 360)\<close> and
  \<open>get_DV01(USD)\<close>.
\<close>

theorem get_DV01_without_ledger_throws:
  "(check_tenor_rate s ccy tenor \<and> check_fx s ccy \<and> \<not> check_maturities s ccy \<longrightarrow>
      get_DV01_tenor s ccy tenor = (Inl OutOfRange, s)) \<and>
   (check_rates s ccy \<and> check_fx s ccy \<and> \<not> check_maturities s ccy \<longrightarrow>
      get_DV01 s ccy = (Inl OutOfRange, s)) \<and>
   (fst (get_DV01_tenor s ccy tenor) = Inr None \<longleftrightarrow>
      \<not> check_tenor_rate s ccy tenor \<or> \<not> check_fx s ccy)"
proof -
  have "get_DV01_tenor s ccy tenor = (Inl OutOfRange, s)"
    if "check_tenor_rate s ccy tenor \<and> check_fx s ccy \<and> \<not> check_maturities s ccy"
    using that
    by (auto simp: get_DV01_tenor_def check_tenor_rate_def check_rates_def
        check_maturities_def at_map_def split: option.splits if_splits)
  moreover have "get_DV01 s ccy = (Inl OutOfRange, s)"
    if "check_rates s ccy \<and> check_fx s ccy \<and> \<not> check_maturities s ccy"
    using that
    by (auto simp: get_DV01_def check_rates_def check_maturities_def at_map_def
        split: option.splits if_splits)
  ultimately show ?thesis using get_DV01_tenor_None_iff [of s ccy tenor] by blast
qed

theorem get_DV01_without_ledger_throws_witness:
  "check_tenor_rate (construct [IR 1 (CHR ''Y'') ''USD'' (1 / 20)] []) USD 360 \<and>
   check_fx (construct [IR 1 (CHR ''Y'') ''USD'' (1 / 20)] []) USD \<and>
   \<not> check_maturities (construct [IR 1 (CHR ''Y'') ''USD'' (1 / 20)] []) USD \<and>
   get_DV01_tenor (construct [IR 1 (CHR ''Y'') ''USD'' (1 / 20)] []) USD 360 =
     (Inl OutOfRange, construct [IR 1 (CHR ''Y'') ''USD'' (1 / 20)] []) \<and>
   get_DV01 (construct [IR 1 (CHR ''Y'') ''USD'' (1 / 20)] []) USD =
     (Inl OutOfRange, construct [IR 1 (CHR ''Y'') ''USD'' (1 / 20)] [])"
proof -
  let ?s = "construct [IR 1 (CHR ''Y'') ''USD'' (1 / 20)] []"
  have a: "check_tenor_rate ?s USD 360" and b: "check_rates ?s USD" and c: "check_fx ?s USD"
    and d: "\<not> check_maturities ?s USD"
    by (simp_all add: construct_USD_1Y check_tenor_rate_def check_rates_def check_fx_def
        check_maturities_def check_tenor_def)
  from get_DV01_without_ledger_throws [of ?s USD 360] a b c d show ?thesis
    by blast
qed

section \<open>Reachable engine states\<close>

lemma insert_or_assign_nonempty: "insert_or_assign kvs k v \<noteq> []"
  by (induction kvs k v rule: insert_or_assign.induct) auto

lemma parse_rate_curves_nonempty:
  "curves_nonempty s \<Longrightarrow> curves_nonempty (parse_rate tenor0 name key_param rate s)"
  by (auto simp: curves_nonempty_def parse_rate_def add_rate_def insert_or_assign_nonempty
      split: option.splits if_splits)

lemma parse_fx_rates: "currency_rates (parse_fx key_param spot_value s) = currency_rates s"
  by (simp add: parse_fx_def split: option.splits)

lemma parse_trade_rates:
  "currency_rates (parse_trade notional key_param payment_date s) = currency_rates s"
  by (simp add: parse_trade_def Let_def split: option.splits)

lemma read_rates_line_curves_nonempty:
  "curves_nonempty s \<Longrightarrow> curves_nonempty (read_rates_line line s)"
  by (cases line) (simp_all add: parse_rate_curves_nonempty, simp add: curves_nonempty_def parse_fx_rates)

lemma read_portfolio_line_curves_nonempty:
  "curves_nonempty s \<Longrightarrow> curves_nonempty (read_portfolio_line line s)"
  by (cases line) (simp_all add: curves_nonempty_def parse_trade_rates)

lemma fold_read_rates_line_curves_nonempty:
  "curves_nonempty s \<Longrightarrow> curves_nonempty (fold read_rates_line lines s)"
  by (induction lines arbitrary: s) (simp_all add: read_rates_line_curves_nonempty)

lemma fold_read_portfolio_line_curves_nonempty:
  "curves_nonempty s \<Longrightarrow> curves_nonempty (fold read_portfolio_line lines s)"
  by (induction lines arbitrary: s) (simp_all add: read_portfolio_line_curves_nonempty)

lemma construct_curves_nonempty: "curves_nonempty (construct in_rates in_portfolio)"
proof -
  have "curves_nonempty RiskManagementSystem_members"
    by (simp add: curves_nonempty_def RiskManagementSystem_members_def)
  then have "curves_nonempty (fold read_rates_line in_rates RiskManagementSystem_members)"
    by (rule fold_read_rates_line_curves_nonempty)
  then have "curves_nonempty
      ((fold read_rates_line in_rates RiskManagementSystem_members)\<lparr>rms_delta := 42940\<rparr>)"
    by (simp add: curves_nonempty_def)
  then show ?thesis
    unfolding construct_def by (rule fold_read_portfolio_line_curves_nonempty)
qed

lemma get_bumped_value_tenor_keys:
  "get_tenors (snd (get_bumped_value_tenor trades tenor bump rates0)) = get_tenors rates0"
proof (cases "bump_tenor tenor bump rates0")
  case (Inl e)
  then show ?thesis by (simp add: get_bumped_value_tenor_def)
next
  case (Inr p)
  then obtain rates1 fin where b: "bump_tenor tenor bump rates0 = Inr (rates1, fin)"
    by (cases p) simp
  show ?thesis
  proof (cases "func fin rates1")
    case (Inl e)
    with b bump_tenor_keys(1) [OF b] show ?thesis
      by (simp add: get_bumped_value_tenor_def)
  next
    case (Inr rates2)
    with b bump_tenor_keys(1) [OF b] bump_tenor_keys(2) [OF b Inr] show ?thesis
      by (simp add: get_bumped_value_tenor_def)
  qed
qed

lemma get_bumped_value_curve_keys:
  "get_tenors (snd (get_bumped_value_curve trades bump rates0)) = get_tenors rates0"
proof (cases "bump_curve bump rates0")
  case (Inl e)
  then show ?thesis by (simp add: get_bumped_value_curve_def)
next
  case (Inr p)
  then obtain rates1 fin where b: "bump_curve bump rates0 = Inr (rates1, fin)"
    by (cases p) simp
  show ?thesis
  proof (cases "func fin rates1")
    case (Inl e)
    with b bump_curve_keys(1) [OF b] show ?thesis
      by (simp add: get_bumped_value_curve_def)
  next
    case (Inr rates2)
    with b bump_curve_keys(1) [OF b] bump_curve_keys(2) [OF b Inr] show ?thesis
      by (simp add: get_bumped_value_curve_def)
  qed
qed

lemma central_difference_state:
  assumes keys: "\<And>bump r. get_tenors (snd (get_bumped_value bump r)) = get_tenors r"
  shows "snd (central_difference s ccy get_bumped_value rates0) = s \<or>
         (\<exists>r. snd (central_difference s ccy get_bumped_value rates0) = put_rates s ccy r \<and>
              get_tenors r = get_tenors rates0)"
proof (cases "case get_fx_spot s (USD, ccy) of Inl e \<Rightarrow> Inl e | Inr x \<Rightarrow> optional_value x")
  case (Inl e)
  then show ?thesis by (simp add: central_difference_def)
next
  case (Inr fx)
  obtain v1 r1 where g1: "get_bumped_value EPS rates0 = (v1, r1)"
    by (cases "get_bumped_value EPS rates0")
  obtain v2 r2 where g2: "get_bumped_value (- EPS) r1 = (v2, r2)"
    by (cases "get_bumped_value (- EPS) r1")
  have k1: "get_tenors r1 = get_tenors rates0" using keys [of EPS rates0] g1 by simp
  have k2: "get_tenors r2 = get_tenors rates0" using keys [of "- EPS" r1] g2 k1 by simp
  show ?thesis
  proof (cases v1)
    case (Inl e)
    with Inr g1 k1 show ?thesis by (auto simp: central_difference_def)
  next
    case up: (Inr up)
    show ?thesis
    proof (cases v2)
      case (Inl e)
      with Inr up g1 g2 k2 show ?thesis by (auto simp: central_difference_def)
    next
      case down: (Inr down)
      with Inr up g1 g2 k2 show ?thesis by (auto simp: central_difference_def)
    qed
  qed
qed

lemma put_rates_curves_nonempty:
  assumes "curves_nonempty s" and "currency_rates s ccy = Some rates0"
    and "get_tenors r = get_tenors rates0"
  shows "curves_nonempty (put_rates s ccy r)"
proof -
  from assms(1,2) have "rates rates0 \<noteq> []" by (auto simp: curves_nonempty_def)
  with assms(3) have "rates r \<noteq> []" by (auto simp: get_tenors_def)
  with assms(1) show ?thesis by (auto simp: curves_nonempty_def put_rates_def)
qed

lemma central_difference_curves_nonempty:
  assumes "curves_nonempty s" and "currency_rates s ccy = Some rates0"
    and "\<And>bump r. get_tenors (snd (get_bumped_value bump r)) = get_tenors r"
  shows "curves_nonempty (snd (central_difference s ccy get_bumped_value rates0))"
  using central_difference_state [of get_bumped_value s ccy rates0, OF assms(3)]
    put_rates_curves_nonempty [OF assms(1,2)] assms(1)
  by auto

lemma get_DV01_tenor_curves_nonempty:
  assumes "curves_nonempty s"
  shows "curves_nonempty (snd (get_DV01_tenor s ccy tenor))"
proof (cases "currency_rates s ccy")
  case None
  with assms show ?thesis
    by (simp add: get_DV01_tenor_def check_tenor_rate_def check_rates_def)
next
  case (Some rates0)
  show ?thesis
  proof (cases "currency_notionals s ccy")
    case None
    with Some assms show ?thesis by (simp add: get_DV01_tenor_def at_map_def)
  next
    case trades: (Some trades)
    from central_difference_curves_nonempty [OF assms Some, of "get_bumped_value_tenor trades tenor"]
    have "curves_nonempty (snd (central_difference s ccy (get_bumped_value_tenor trades tenor) rates0))"
      by (simp add: get_bumped_value_tenor_keys)
    with Some trades assms show ?thesis by (simp add: get_DV01_tenor_def at_map_def)
  qed
qed

lemma get_DV01_curves_nonempty:
  assumes "curves_nonempty s"
  shows "curves_nonempty (snd (get_DV01 s ccy))"
proof (cases "currency_rates s ccy")
  case None
  with assms show ?thesis
    by (simp add: get_DV01_def check_rates_def)
next
  case (Some rates0)
  show ?thesis
  proof (cases "currency_notionals s ccy")
    case None
    with Some assms show ?thesis by (simp add: get_DV01_def at_map_def)
  next
    case trades: (Some trades)
    from central_difference_curves_nonempty [OF assms Some, of "get_bumped_value_curve trades"]
    have "curves_nonempty (snd (central_difference s ccy (get_bumped_value_curve trades) rates0))"
      by (simp add: get_bumped_value_curve_keys)
    with Some trades assms show ?thesis by (simp add: get_DV01_def at_map_def)
  qed
qed

lemma reachable_curves_nonempty: "reachable s \<Longrightarrow> curves_nonempty s"
  by (induction rule: reachable.induct)
    (simp_all add: construct_curves_nonempty get_DV01_tenor_curves_nonempty
      get_DV01_curves_nonempty)

lemma bracket_nonempty:
  assumes "rates c \<noteq> []"
  shows "\<exists>b. bracket c t = Inr b"
proof -
  have le: "upper_bound (rates c) t \<le> length (rates c)" by (rule upper_bound_le)
  have len: "0 < length (rates c)" using assms by simp
  show ?thesis
  proof (cases "upper_bound (rates c) t = 0")
    case True
    with len show ?thesis by (simp add: bracket_def deref_in split: prod.splits)
  next
    case False
    with le have "upper_bound (rates c) t - 1 < length (rates c)" by simp
    with False le show ?thesis
      by (auto simp: bracket_def deref_in Let_def split: prod.splits)
  qed
qed

lemma get_discount_factor_no_deref:
  assumes "rates c \<noteq> []"
  shows "get_discount_factor c t \<noteq> Inl EndDereference"
proof -
  from bracket_nonempty [OF assms] obtain b where "bracket c t = Inr b" by blast
  then show ?thesis
    by (simp add: get_discount_factor_def Let_def split: prod.splits)
qed

lemma get_discount_factor_empty: "get_discount_factor \<lparr>rates = []\<rparr> t = Inl EndDereference"
  by (simp add: get_discount_factor_def bracket_def deref_def)

text \<open>
  Claim C9. In every reachable engine state each curve of \<open>currency_rates\<close> holds at least
  one rate point, and the engine's \<open>get_discount_factor\<close> never dereferences
  \<open>rates.end()\<close>, for any currency and tenor. On an empty curve the curve's
  \<open>get_discount_factor\<close> would do so.
\<close>

theorem reachable_curves_have_rates:
  assumes "reachable s"
  shows "(\<forall>ccy c. currency_rates s ccy = Some c \<longrightarrow> rates c \<noteq> []) \<and>
         (\<forall>ccy tenor. rms_get_discount_factor s ccy tenor \<noteq> Inl EndDereference) \<and>
         (\<forall>t. get_discount_factor InterestRates_default t = Inl EndDereference)"
proof -
  from assms have inv: "curves_nonempty s" by (rule reachable_curves_nonempty)
  have "rms_get_discount_factor s ccy tenor \<noteq> Inl EndDereference" for ccy tenor
  proof (cases "currency_rates s ccy")
    case None
    then show ?thesis by (simp add: rms_get_discount_factor_def check_rates_def)
  next
    case (Some c)
    with inv have "rates c \<noteq> []" by (auto simp: curves_nonempty_def)
    from get_discount_factor_no_deref [OF this, of tenor] Some show ?thesis
      by (auto simp: rms_get_discount_factor_def at_map_def split: sum.splits)
  qed
  with inv show ?thesis
    by (auto simp: curves_nonempty_def InterestRates_default_def get_discount_factor_empty)
qed

theorem reachable_curves_have_rates_witness:
  "reachable (construct [IR 1 (CHR ''Y'') ''USD'' (1 / 20)] []) \<and>
   currency_rates (construct [IR 1 (CHR ''Y'') ''USD'' (1 / 20)] []) USD =
     Some \<lparr>rates = [(360, 1 / 20)]\<rparr> \<and>
   rms_get_discount_factor (construct [IR 1 (CHR ''Y'') ''USD'' (1 / 20)] []) USD 360 \<noteq>
     Inl EndDereference"
proof -
  let ?s = "construct [IR 1 (CHR ''Y'') ''USD'' (1 / 20)] []"
  have r: "reachable ?s" by (rule reachable.constructed)
  have c: "currency_rates ?s USD = Some \<lparr>rates = [(360, 1 / 20)]\<rparr>"
    by (simp add: construct_USD_1Y)
  from reachable_curves_have_rates [OF r] r c show ?thesis by blast
qed

section \<open>The value of a bump and of its release\<close>

lemma map_of_Some_if_key: "k \<in> set (map fst kvs) \<Longrightarrow> \<exists>v. map_of kvs k = Some v"
  by (cases "map_of kvs k") (auto simp: map_of_eq_None_iff)

lemma at_add_value:
  "tenor \<in> set (map fst kvs) \<Longrightarrow>
   at_add kvs tenor d = Inr (map (\<lambda>(k, v). if k = tenor then (k, v + d) else (k, v)) kvs)"
  using map_of_Some_if_key [of tenor kvs] by (auto simp: at_add_def)

lemma at_sub_value:
  "tenor \<in> set (map fst kvs) \<Longrightarrow>
   at_sub kvs tenor d = Inr (map (\<lambda>(k, v). if k = tenor then (k, v - d) else (k, v)) kvs)"
  using map_of_Some_if_key [of tenor kvs] by (auto simp: at_sub_def)

lemma sub_after_add:
  "map ((\<lambda>(k, v). if k = tenor then (k, v - d) else (k, v)) \<circ>
        (\<lambda>(k, v :: real). if k = tenor then (k, v + d) else (k, v))) kvs = kvs"
  by (induction kvs) auto

lemma bump_tenor_value:
  assumes "check_tenor c tenor"
  shows "\<exists>fin. bump_tenor tenor b c = Inr (rates_bumped_at tenor b c, fin) \<and>
               func fin (rates_bumped_at tenor b c) = Inr c"
proof -
  from assms have mem: "tenor \<in> set (map fst (rates c))"
    by (simp add: check_tenor_iff get_tenors_def)
  let ?kvs1 = "map (\<lambda>(k, v). if k = tenor then (k, v + b) else (k, v)) (rates c)"
  have "map fst ?kvs1 = map fst (rates c)" by (simp add: case_prod_unfold comp_def)
  with mem have mem1: "tenor \<in> set (map fst ?kvs1)" by simp
  show ?thesis
    by (simp add: bump_tenor_def rates_bumped_at_def at_add_value [OF mem]
        at_sub_value [OF mem1] sub_after_add)
qed

lemma bump_loop_value:
  "distinct tenors \<Longrightarrow> set tenors \<subseteq> set (map fst kvs) \<Longrightarrow>
   bump_loop tenors d kvs =
     Inr (map (\<lambda>(k, v). if k \<in> set tenors then (k, v + d) else (k, v)) kvs)"
proof (induction tenors arbitrary: kvs)
  case Nil
  then show ?case by (simp add: case_prod_unfold)
next
  case (Cons tenor tenors)
  let ?kvs1 = "map (\<lambda>(k, v). if k = tenor then (k, v + d) else (k, v)) kvs"
  from Cons.prems have mem: "tenor \<in> set (map fst kvs)"
    and sub: "set tenors \<subseteq> set (map fst kvs)"
    and dist: "distinct tenors" and fresh: "tenor \<notin> set tenors" by simp_all
  have eq: "map fst ?kvs1 = map fst kvs" by (induction kvs) auto
  have "set tenors \<subseteq> set (map fst ?kvs1)" unfolding eq by (rule sub)
  from Cons.IH [OF dist this]
  have "bump_loop tenors d ?kvs1 =
          Inr (map (\<lambda>(k, v). if k \<in> set tenors then (k, v + d) else (k, v)) ?kvs1)" .
  moreover have "map (\<lambda>(k, v). if k \<in> set tenors then (k, v + d) else (k, v)) ?kvs1 =
                 map (\<lambda>(k, v). if k \<in> set (tenor # tenors) then (k, v + d) else (k, v)) kvs"
    using fresh by (induction kvs) auto
  ultimately show ?case by (simp add: at_add_value [OF mem])
qed

lemma unbump_loop_value:
  "distinct tenors \<Longrightarrow> set tenors \<subseteq> set (map fst kvs) \<Longrightarrow>
   unbump_loop tenors d kvs =
     Inr (map (\<lambda>(k, v). if k \<in> set tenors then (k, v - d) else (k, v)) kvs)"
proof (induction tenors arbitrary: kvs)
  case Nil
  then show ?case by (simp add: case_prod_unfold)
next
  case (Cons tenor tenors)
  let ?kvs1 = "map (\<lambda>(k, v). if k = tenor then (k, v - d) else (k, v)) kvs"
  from Cons.prems have mem: "tenor \<in> set (map fst kvs)"
    and sub: "set tenors \<subseteq> set (map fst kvs)"
    and dist: "distinct tenors" and fresh: "tenor \<notin> set tenors" by simp_all
  have eq: "map fst ?kvs1 = map fst kvs" by (induction kvs) auto
  have "set tenors \<subseteq> set (map fst ?kvs1)" unfolding eq by (rule sub)
  from Cons.IH [OF dist this]
  have "unbump_loop tenors d ?kvs1 =
          Inr (map (\<lambda>(k, v). if k \<in> set tenors then (k, v - d) else (k, v)) ?kvs1)" .
  moreover have "map (\<lambda>(k, v). if k \<in> set tenors then (k, v - d) else (k, v)) ?kvs1 =
                 map (\<lambda>(k, v). if k \<in> set (tenor # tenors) then (k, v - d) else (k, v)) kvs"
    using fresh by (induction kvs) auto
  ultimately show ?case by (simp add: at_sub_value [OF mem])
qed

lemma sub_all_after_add_all:
  "map ((\<lambda>(k, v). (k, v - d)) \<circ> (\<lambda>(k, v :: real). (k, v + d))) kvs = kvs"
  by (induction kvs) auto

lemma map_all_keys:
  "map (\<lambda>(k, v). if k \<in> set (map fst kvs) then (k, f v) else (k, v)) kvs =
   map (\<lambda>(k, v). (k, f v)) kvs"
  by (rule map_cong) (auto simp: rev_image_eqI)

lemma bump_curve_value:
  assumes "distinct (get_tenors c)"
  shows "\<exists>fin. bump_curve b c = Inr (rates_bumped_all b c, fin) \<and>
               func fin (rates_bumped_all b c) = Inr c"
proof -
  let ?kvs1 = "map (\<lambda>(k, v). (k, v + b)) (rates c)"
  from assms have d0: "distinct (map fst (rates c))" by (simp add: get_tenors_def)
  have eq: "map fst ?kvs1 = map fst (rates c)" by (simp add: case_prod_unfold comp_def)
  have "bump_loop (map fst (rates c)) b (rates c) =
          Inr (map (\<lambda>(k, v). if k \<in> set (map fst (rates c)) then (k, v + b) else (k, v)) (rates c))"
    by (rule bump_loop_value [OF d0 subset_refl])
  then have up: "bump_loop (map fst (rates c)) b (rates c) = Inr ?kvs1"
    by (simp only: map_all_keys)
  have d1: "distinct (map fst ?kvs1)" unfolding eq by (rule d0)
  have undo: "map (\<lambda>(k, v). (k, v - b)) ?kvs1 = rates c"
    by (simp only: map_map sub_all_after_add_all)
  have "unbump_loop (map fst ?kvs1) b ?kvs1 =
          Inr (map (\<lambda>(k, v). if k \<in> set (map fst ?kvs1) then (k, v - b) else (k, v)) ?kvs1)"
    by (rule unbump_loop_value [OF d1 subset_refl])
  then have down: "unbump_loop (map fst ?kvs1) b ?kvs1 = Inr (rates c)"
    by (simp only: map_all_keys undo)
  have r1: "rates (rates_bumped_all b c) = ?kvs1" by (simp add: rates_bumped_all_def)
  have "bump_curve b c = Inr (rates_bumped_all b c,
         \<lparr>func = (\<lambda>c'. case unbump_loop (get_tenors c') b (rates c') of
                          Inl e \<Rightarrow> Inl e
                        | Inr kvs' \<Rightarrow> Inr (c'\<lparr>rates := kvs'\<rparr>))\<rparr>)"
    using up by (simp add: bump_curve_def get_tenors_def rates_bumped_all_def)
  moreover have "(case unbump_loop (get_tenors (rates_bumped_all b c)) b (rates (rates_bumped_all b c)) of
                    Inl e \<Rightarrow> Inl e
                  | Inr kvs' \<Rightarrow> Inr ((rates_bumped_all b c)\<lparr>rates := kvs'\<rparr>)) = Inr c"
    unfolding get_tenors_def r1 down by (simp add: rates_bumped_all_def)
  ultimately show ?thesis by simp
qed

lemma get_bumped_value_tenor_eq:
  assumes "check_tenor c tenor"
  shows "get_bumped_value_tenor trades tenor b c =
           (get_book_value trades (get_discount_factor (rates_bumped_at tenor b c)), c)"
proof -
  from bump_tenor_value [OF assms, of b] obtain fin
    where "bump_tenor tenor b c = Inr (rates_bumped_at tenor b c, fin)"
      and "func fin (rates_bumped_at tenor b c) = Inr c" by blast
  then show ?thesis by (simp add: get_bumped_value_tenor_def)
qed

lemma get_bumped_value_curve_eq:
  assumes "distinct (get_tenors c)"
  shows "get_bumped_value_curve trades b c =
           (get_book_value trades (get_discount_factor (rates_bumped_all b c)), c)"
proof -
  from bump_curve_value [OF assms, of b] obtain fin
    where "bump_curve b c = Inr (rates_bumped_all b c, fin)"
      and "func fin (rates_bumped_all b c) = Inr c" by blast
  then show ?thesis by (simp add: get_bumped_value_curve_def)
qed

lemma put_rates_same: "currency_rates s ccy = Some c \<Longrightarrow> put_rates s ccy c = s"
  by (simp add: put_rates_def map_upd_triv)

lemma central_difference_eq:
  assumes "get_fx_spot s (USD, ccy) = Inr (Some fx)"
    and "currency_rates s ccy = Some c"
    and "get_bumped_value EPS c = (Inr up, c)"
    and "get_bumped_value (- EPS) c = (Inr down, c)"
  shows "central_difference s ccy get_bumped_value c = (Inr (Some (fx * - (up - down) / 2)), s)"
  using assms by (simp add: central_difference_def optional_value_def put_rates_same)

lemma get_fx_spot_check_fx:
  "get_fx_spot s (base, term) = Inr (Some x) \<Longrightarrow> check_fx s base \<and> check_fx s term"
  by (auto simp: get_fx_spot_def split: if_splits)

lemma get_DV01_values:
  assumes "currency_rates s ccy = Some c"
    and "distinct (get_tenors c)"
    and "currency_notionals s ccy = Some trades"
    and "get_fx_spot s (USD, ccy) = Inr (Some fx)"
  shows
    "(check_tenor c tenor \<and>
      get_book_value trades (get_discount_factor (rates_bumped_at tenor EPS c)) = Inr up \<and>
      get_book_value trades (get_discount_factor (rates_bumped_at tenor (- EPS) c)) = Inr down \<longrightarrow>
        get_DV01_tenor s ccy tenor = (Inr (Some (fx * - (up - down) / 2)), s)) \<and>
     (get_book_value trades (get_discount_factor (rates_bumped_all EPS c)) = Inr up' \<and>
      get_book_value trades (get_discount_factor (rates_bumped_all (- EPS) c)) = Inr down' \<longrightarrow>
        get_DV01 s ccy = (Inr (Some (fx * - (up' - down') / 2)), s)) \<and>
     EPS = 1 / 10000"
proof (intro conjI impI)
  from get_fx_spot_check_fx [OF assms(4)] have fx: "check_fx s ccy" by simp
  from assms(1) have cr: "check_rates s ccy" by (simp add: check_rates_def)
  show "EPS = 1 / 10000" by (simp add: EPS_def)
  show "get_DV01_tenor s ccy tenor = (Inr (Some (fx * - (up - down) / 2)), s)"
    if h: "check_tenor c tenor \<and>
      get_book_value trades (get_discount_factor (rates_bumped_at tenor EPS c)) = Inr up \<and>
      get_book_value trades (get_discount_factor (rates_bumped_at tenor (- EPS) c)) = Inr down"
  proof -
    from h have ct: "check_tenor c tenor" by simp
    have "central_difference s ccy (get_bumped_value_tenor trades tenor) c =
            (Inr (Some (fx * - (up - down) / 2)), s)"
      using h by (intro central_difference_eq [OF assms(4,1)])
        (simp_all add: get_bumped_value_tenor_eq [OF ct])
    with assms(1,3) ct cr fx show ?thesis
      by (simp add: get_DV01_tenor_def check_tenor_rate_def at_map_def)
  qed
  show "get_DV01 s ccy = (Inr (Some (fx * - (up' - down') / 2)), s)"
    if h: "get_book_value trades (get_discount_factor (rates_bumped_all EPS c)) = Inr up' \<and>
      get_book_value trades (get_discount_factor (rates_bumped_all (- EPS) c)) = Inr down'"
  proof -
    have "central_difference s ccy (get_bumped_value_curve trades) c =
            (Inr (Some (fx * - (up' - down') / 2)), s)"
      using h by (intro central_difference_eq [OF assms(4,1)])
        (simp_all add: get_bumped_value_curve_eq [OF assms(2)])
    with assms(1,3) cr fx show ?thesis
      by (simp add: get_DV01_def at_map_def)
  qed
qed

text \<open>
  Claim C3. Let \<open>ccy\<close> have a curve and a ledger, and let USD and \<open>ccy\<close> have spot
  entries, the one of \<open>ccy\<close> not zero. Then \<open>get_fx_spot (USD, ccy)\<close> is the quotient
  \<open>spot USD / spot ccy\<close>. When the curve has a rate at \<open>tenor\<close>, and the book values
  computed with the curve's discount function while that rate is bumped by \<open>EPS\<close> and by
  \<open>- EPS\<close> are the numbers \<open>up\<close> and \<open>down\<close>, \<open>get_DV01 (ccy, tenor)\<close> returns
  \<open>spot USD / spot ccy * - (up - down) / 2\<close>. The overload without a tenor returns the
  same expression for the book values with every rate bumped. \<open>EPS\<close> is one
  ten-thousandth. This is a statement in exact arithmetic: there the release after each
  evaluation restores the curve, so the second evaluation starts from the original curve
  and each query leaves the engine as it found it. In \<open>double\<close> arithmetic the release is a
  rounded subtraction and restores a rate only up to rounding, as the statement on the
  bump and release cycle at claim C2 says.
\<close>

theorem get_DV01_central_difference:
  assumes "currency_rates s ccy = Some c"
    and "distinct (get_tenors c)"
    and "currency_notionals s ccy = Some trades"
    and "currency_spot s USD = Some fx_usd"
    and "currency_spot s ccy = Some fx_ccy"
    and "spot fx_ccy \<noteq> 0"
  shows
    "(check_tenor c tenor \<and>
      get_book_value trades (get_discount_factor (rates_bumped_at tenor EPS c)) = Inr up \<and>
      get_book_value trades (get_discount_factor (rates_bumped_at tenor (- EPS) c)) = Inr down \<longrightarrow>
        get_DV01_tenor s ccy tenor =
          (Inr (Some (spot fx_usd / spot fx_ccy * - (up - down) / 2)), s)) \<and>
     (get_book_value trades (get_discount_factor (rates_bumped_all EPS c)) = Inr up' \<and>
      get_book_value trades (get_discount_factor (rates_bumped_all (- EPS) c)) = Inr down' \<longrightarrow>
        get_DV01 s ccy =
          (Inr (Some (spot fx_usd / spot fx_ccy * - (up' - down') / 2)), s)) \<and>
     get_fx_spot s (USD, ccy) = Inr (Some (spot fx_usd / spot fx_ccy)) \<and>
     EPS = 1 / 10000"
proof -
  have fx: "get_fx_spot s (USD, ccy) = Inr (Some (spot fx_usd / spot fx_ccy))"
    using get_fx_spot_Some [OF assms(4,5)] assms(6) by simp
  from get_DV01_values [OF assms(1,2,3) fx, of tenor up down up' down'] fx
  show ?thesis by blast
qed



lemma construct_EUR_USD_spots:
  "construct [IR 1 (CHR ''M'') ''EUR'' (1 / 50), IR 2 (CHR ''M'') ''EUR'' (1 / 40),
              FX ''EUR'' (5 / 4), FX ''USD'' 2]
             [Trade 100 ''EUR'' 42985, Trade 200 ''EUR'' 42940] =
     \<lparr>currency_rates = [EUR \<mapsto> \<lparr>rates = [(30, 1 / 50), (60, 1 / 40)]\<rparr>],
      currency_spot = [USD \<mapsto> \<lparr>spot = 2\<rparr>, EUR \<mapsto> \<lparr>spot = 5 / 4\<rparr>],
      currency_notionals =
        [EUR \<mapsto> \<lparr>date_notionals = [(42985, 100), (42940, 200)], delta = 42940\<rparr>],
      rms_delta = 42940\<rparr>"
  by (simp add: construct_def RiskManagementSystem_members_def parse_rate_def parse_trade_def
      parse_fx_def check_tenor_val_def to_ccy_def strings_def currency_of_index_def
      FXSpot_default_def set_spot_def add_rate_def InterestRates_default_def
      DateNotionals_default_def set_delta_def add_trade_def fun_upd_twist)

lemma book_value_two_points:
  "get_book_value \<lparr>date_notionals = [(42985, 100), (42940, 200)], delta = 42940\<rparr>
     (get_discount_factor \<lparr>rates = [(30, r1), (60, r2)]\<rparr>) =
   Inr (100 * exp (- ((r1 * 15 + r2 * 15) / 30) * 45 / 360) + 200)"
  by (simp add: get_book_value_def get_discount_factor_def bracket_def deref_def of_cint_def)

theorem get_DV01_central_difference_witness:
  "get_DV01_tenor
     (construct [IR 1 (CHR ''M'') ''EUR'' (1 / 50), IR 2 (CHR ''M'') ''EUR'' (1 / 40),
                 FX ''EUR'' (5 / 4), FX ''USD'' 2]
                [Trade 100 ''EUR'' 42985, Trade 200 ''EUR'' 42940]) EUR 60 =
     (Inr (Some (8 / 5 * - ((100 * exp (- (451 / 160000)) + 200) -
                           (100 * exp (- (449 / 160000)) + 200)) / 2)),
      construct [IR 1 (CHR ''M'') ''EUR'' (1 / 50), IR 2 (CHR ''M'') ''EUR'' (1 / 40),
                 FX ''EUR'' (5 / 4), FX ''USD'' 2]
                [Trade 100 ''EUR'' 42985, Trade 200 ''EUR'' 42940]) \<and>
   get_DV01
     (construct [IR 1 (CHR ''M'') ''EUR'' (1 / 50), IR 2 (CHR ''M'') ''EUR'' (1 / 40),
                 FX ''EUR'' (5 / 4), FX ''USD'' 2]
                [Trade 100 ''EUR'' 42985, Trade 200 ''EUR'' 42940]) EUR =
     (Inr (Some (8 / 5 * - ((100 * exp (- (113 / 40000)) + 200) -
                           (100 * exp (- (7 / 2500)) + 200)) / 2)),
      construct [IR 1 (CHR ''M'') ''EUR'' (1 / 50), IR 2 (CHR ''M'') ''EUR'' (1 / 40),
                 FX ''EUR'' (5 / 4), FX ''USD'' 2]
                [Trade 100 ''EUR'' 42985, Trade 200 ''EUR'' 42940]) \<and>
   get_fx_spot
     (construct [IR 1 (CHR ''M'') ''EUR'' (1 / 50), IR 2 (CHR ''M'') ''EUR'' (1 / 40),
                 FX ''EUR'' (5 / 4), FX ''USD'' 2]
                [Trade 100 ''EUR'' 42985, Trade 200 ''EUR'' 42940]) (USD, EUR) =
     Inr (Some (8 / 5))"
proof -
  let ?s = "construct [IR 1 (CHR ''M'') ''EUR'' (1 / 50), IR 2 (CHR ''M'') ''EUR'' (1 / 40),
                       FX ''EUR'' (5 / 4), FX ''USD'' 2]
                      [Trade 100 ''EUR'' 42985, Trade 200 ''EUR'' 42940]"
  let ?c = "\<lparr>rates = [(30, 1 / 50), (60, 1 / 40)]\<rparr> :: InterestRates"
  let ?l = "\<lparr>date_notionals = [(42985, 100), (42940, 200)], delta = 42940\<rparr> :: DateNotionals"
  let ?u = "\<lparr>spot = 2\<rparr> :: FXSpot" and ?e = "\<lparr>spot = 5 / 4\<rparr> :: FXSpot"
  have c: "currency_rates ?s EUR = Some ?c" by (simp add: construct_EUR_USD_spots)
  have d: "distinct (get_tenors ?c)" by (simp add: get_tenors_def)
  have l: "currency_notionals ?s EUR = Some ?l" by (simp add: construct_EUR_USD_spots)
  have u: "currency_spot ?s USD = Some ?u" by (simp add: construct_EUR_USD_spots)
  have e: "currency_spot ?s EUR = Some ?e" by (simp add: construct_EUR_USD_spots)
  have nz: "spot ?e \<noteq> 0" by simp
  have ct: "check_tenor ?c 60" by (simp add: check_tenor_def)
  have up: "get_book_value ?l (get_discount_factor (rates_bumped_at 60 EPS ?c)) =
              Inr (100 * exp (- (451 / 160000)) + 200)"
    by (simp add: rates_bumped_at_def EPS_def book_value_two_points)
  have down: "get_book_value ?l (get_discount_factor (rates_bumped_at 60 (- EPS) ?c)) =
              Inr (100 * exp (- (449 / 160000)) + 200)"
    by (simp add: rates_bumped_at_def EPS_def book_value_two_points)
  have up': "get_book_value ?l (get_discount_factor (rates_bumped_all EPS ?c)) =
              Inr (100 * exp (- (113 / 40000)) + 200)"
    by (simp add: rates_bumped_all_def EPS_def book_value_two_points)
  have down': "get_book_value ?l (get_discount_factor (rates_bumped_all (- EPS) ?c)) =
              Inr (100 * exp (- (7 / 2500)) + 200)"
    by (simp add: rates_bumped_all_def EPS_def book_value_two_points)
  note th = get_DV01_central_difference [OF c d l u e nz]
  from th ct up down have 1: "get_DV01_tenor ?s EUR 60 =
      (Inr (Some (spot ?u / spot ?e * - ((100 * exp (- (451 / 160000)) + 200) -
                           (100 * exp (- (449 / 160000)) + 200)) / 2)), ?s)"
    by blast
  from th up' down' have 2: "get_DV01 ?s EUR =
      (Inr (Some (spot ?u / spot ?e * - ((100 * exp (- (113 / 40000)) + 200) -
                           (100 * exp (- (7 / 2500)) + 200)) / 2)), ?s)"
    by blast
  from th have 3: "get_fx_spot ?s (USD, EUR) = Inr (Some (spot ?u / spot ?e))" by blast
  from 1 2 3 show ?thesis by simp
qed

section \<open>The sign of the parallel sensitivity\<close>


















section \<open>Binary64 rounding\<close>

lemma round_half_even_of_int: "round_half_even (of_int m) = m"
  by (simp add: round_half_even_def)

lemma round_half_even_le: "of_int (round_half_even y) \<le> y + 1"
  unfolding round_half_even_def Let_def by (auto; linarith)

lemma round64_in_binade:
  assumes lo: "2 powr of_int n \<le> \<bar>x\<bar>" and hi: "\<bar>x\<bar> < 2 powr of_int (n + 1)"
  shows "round64 x =
           2 powr of_int (n - 52) * of_int (round_half_even (x / 2 powr of_int (n - 52)))"
proof -
  have pos: "0 < \<bar>x\<bar>"
    using lo powr_gt_zero [of 2 "of_int n"] by linarith
  then have nz: "x \<noteq> 0" by auto
  have "\<lfloor>log 2 \<bar>x\<bar>\<rfloor> = n"
    using lo hi by (simp add: floor_log_eq_powr_iff [OF pos])
  with nz show ?thesis by (simp add: round64_def Let_def)
qed

lemma round64_representable:
  fixes m k :: int
  assumes lo: "2 ^ 52 \<le> \<bar>m\<bar>" and hi: "\<bar>m\<bar> < 2 ^ 53"
  shows "round64 (of_int m * 2 powr of_int k) = of_int m * 2 powr of_int k"
proof -
  let ?x = "real_of_int m * 2 powr of_int k"
  have u: "0 < (2::real) powr of_int k" by simp
  have ax: "\<bar>?x\<bar> = real_of_int \<bar>m\<bar> * 2 powr of_int k"
    by (simp add: abs_mult)
  have p52: "(2::real) powr of_int (k + 52) = 2 ^ 52 * 2 powr of_int k"
    by (simp add: powr_add)
  have p53: "(2::real) powr of_int (k + 52 + 1) = 2 ^ 53 * 2 powr of_int k"
    by (simp add: powr_add)
  have "real_of_int (2 ^ 52) \<le> real_of_int \<bar>m\<bar>" using lo by (simp only: of_int_le_iff)
  then have a: "2 powr of_int (k + 52) \<le> \<bar>?x\<bar>"
    unfolding ax p52 using u by (simp add: mult_right_mono)
  have "real_of_int \<bar>m\<bar> < real_of_int (2 ^ 53)" using hi by (simp only: of_int_less_iff)
  then have b: "\<bar>?x\<bar> < 2 powr of_int (k + 52 + 1)"
    unfolding ax p53 using u by (simp add: mult_strict_right_mono)
  have "round64 ?x = 2 powr of_int (k + 52 - 52) *
          of_int (round_half_even (?x / 2 powr of_int (k + 52 - 52)))"
    by (rule round64_in_binade [OF a b])
  also have "\<dots> = 2 powr of_int k * of_int (round_half_even (of_int m))"
    by simp
  also have "\<dots> = ?x" by (simp add: round_half_even_of_int)
  finally show ?thesis .
qed

lemma round64_0: "round64 0 = 0"
  by (simp add: round64_def)

lemma round64_1: "round64 1 = 1"
  using round64_representable [of "2 ^ 52" "- 52"] by (simp add: powr_minus)

lemma round64_minus_1: "round64 (- 1) = - 1"
  using round64_representable [of "- (2 ^ 52)" "- 52"] by (simp add: powr_minus)

lemma round64_minus_360: "round64 (- 360) = - 360"
  using round64_representable [of "- (360 * 2 ^ 44)" "- 44"] by (simp add: powr_minus)

lemma round64_2_53: "round64 9007199254740992 = 9007199254740992"
  using round64_representable [of "2 ^ 52" 1] by (simp add: powr_int)

lemma round64_2_53_plus_1: "round64 9007199254740993 = 9007199254740992"
proof -
  have a: "2 powr of_int 53 \<le> \<bar>9007199254740993 :: real\<bar>" by (simp add: powr_int)
  have b: "\<bar>9007199254740993 :: real\<bar> < 2 powr of_int (53 + 1)" by (simp add: powr_int)
  have f: "\<lfloor>9007199254740993 / 2 :: real\<rfloor> = 4503599627370496" by linarith
  have r: "round_half_even (9007199254740993 / 2) = 4503599627370496"
    by (simp add: round_half_even_def f)
  from round64_in_binade [OF a b] r show ?thesis by (simp add: powr_int)
qed

lemma round64_exp_minus_1: "round64 (exp (- 1)) < 1"
proof -
  let ?x = "exp (- 1) :: real"
  have e3: "exp 1 \<le> (3::real)" by (rule exp_le)
  have e2: "9 / 4 \<le> exp (1::real)"
    using exp_ge_one_plus_x_over_n_power_n [of 2 "1::real"] by (simp add: power2_eq_square)
  have xi: "?x = inverse (exp 1)" by (simp add: exp_minus)
  have lo: "1 / 4 \<le> ?x" unfolding xi using e3 exp_gt_zero [of "1::real"]
    by (simp add: field_simps)
  have hi: "?x < 1 / 2" unfolding xi using e2 by (simp add: field_simps)
  have p2: "(2::real) powr of_int (- 2) = 1 / 4" by (simp add: powr_minus)
  have p1: "(2::real) powr of_int (- 2 + 1) = 1 / 2" by (simp add: powr_minus)
  have a: "2 powr of_int (- 2) \<le> \<bar>?x\<bar>" unfolding p2 using lo by simp
  have b: "\<bar>?x\<bar> < 2 powr of_int (- 2 + 1)" unfolding p1 using hi by simp
  let ?u = "(2::real) powr of_int (- 2 - 52)"
  have u: "?u = inverse (2 ^ 54)" by (simp add: powr_minus)
  have upos: "0 < ?u" by simp
  have "round64 ?x = ?u * of_int (round_half_even (?x / ?u))"
    by (rule round64_in_binade [OF a b])
  also have "\<dots> \<le> ?u * (?x / ?u + 1)"
    using round_half_even_le [of "?x / ?u"] upos by (simp only: mult_le_cancel_left_pos)
  also have "\<dots> = ?x + ?u" using upos by (simp add: algebra_simps)
  also have "\<dots> < 1" using hi unfolding u by simp
  finally show ?thesis .
qed

section \<open>The bump and release cycle\<close>

lemma at_add_fl_exact: "at_add_fl (\<lambda>x. x) = at_add"
  by (simp add: fun_eq_iff at_add_fl_def at_add_def)

lemma at_sub_fl_exact: "at_sub_fl (\<lambda>x. x) = at_sub"
  by (simp add: fun_eq_iff at_sub_fl_def at_sub_def)

lemma bump_tenor_fl_exact: "bump_tenor_fl (\<lambda>x. x) = bump_tenor"
  by (simp add: fun_eq_iff bump_tenor_fl_def bump_tenor_def at_add_fl_exact at_sub_fl_exact
      cong: sum.case_cong)

lemma bump_loop_fl_exact: "bump_loop_fl (\<lambda>x. x) tenors d kvs = bump_loop tenors d kvs"
  by (induction tenors arbitrary: kvs) (simp_all add: at_add_fl_exact split: sum.splits)

lemma unbump_loop_fl_exact: "unbump_loop_fl (\<lambda>x. x) tenors d kvs = unbump_loop tenors d kvs"
  by (induction tenors arbitrary: kvs) (simp_all add: at_sub_fl_exact split: sum.splits)

lemma bump_curve_fl_exact: "bump_curve_fl (\<lambda>x. x) = bump_curve"
  by (simp add: fun_eq_iff bump_curve_fl_def bump_curve_def bump_loop_fl_exact
      unbump_loop_fl_exact cong: sum.case_cong)

lemma get_discount_factor_fl_exact: "get_discount_factor_fl (\<lambda>x. x) = get_discount_factor"
  by (simp add: fun_eq_iff get_discount_factor_fl_def get_discount_factor_def)

lemma at_add_fl_value:
  "tenor \<in> set (map fst kvs) \<Longrightarrow>
   at_add_fl rnd kvs tenor d =
     Inr (map (\<lambda>(k, v). if k = tenor then (k, rnd (v + d)) else (k, v)) kvs)"
  using map_of_Some_if_key [of tenor kvs] by (auto simp: at_add_fl_def)

lemma at_sub_fl_value:
  "tenor \<in> set (map fst kvs) \<Longrightarrow>
   at_sub_fl rnd kvs tenor d =
     Inr (map (\<lambda>(k, v). if k = tenor then (k, rnd (v - d)) else (k, v)) kvs)"
  using map_of_Some_if_key [of tenor kvs] by (auto simp: at_sub_fl_def)

lemma map_fst_update: "map fst (map (\<lambda>(k, v). if P k then (k, f v) else (k, v)) kvs) = map fst kvs"
  by (induction kvs) auto

lemma sub_after_add_fl:
  fixes rnd :: "real \<Rightarrow> real"
  assumes "\<forall>(k, r)\<in>set kvs. P k \<longrightarrow> rnd r = r \<and> rnd (r + d) = r + d"
  shows "map (\<lambda>(k, v). if P k then (k, rnd (v - d)) else (k, v))
           (map (\<lambda>(k, v). if P k then (k, rnd (v + d)) else (k, v)) kvs) = kvs"
  using assms
proof (induction kvs)
  case Nil
  then show ?case by simp
next
  case (Cons kv kvs)
  obtain k r where kv: "kv = (k, r)" by (cases kv)
  have "rnd (rnd (r + d) - d) = r" if "P k"
  proof -
    from Cons.prems kv that have a: "rnd r = r" and b: "rnd (r + d) = r + d" by auto
    show ?thesis unfolding b using a by (simp only: add_diff_cancel_right')
  qed
  with Cons kv show ?case by simp
qed

lemma bump_loop_fl_value:
  "distinct tenors \<Longrightarrow> set tenors \<subseteq> set (map fst kvs) \<Longrightarrow>
   bump_loop_fl rnd tenors d kvs =
     Inr (map (\<lambda>(k, v). if k \<in> set tenors then (k, rnd (v + d)) else (k, v)) kvs)"
proof (induction tenors arbitrary: kvs)
  case Nil
  then show ?case by (simp add: case_prod_unfold)
next
  case (Cons tenor tenors)
  let ?kvs1 = "map (\<lambda>(k, v). if k = tenor then (k, rnd (v + d)) else (k, v)) kvs"
  from Cons.prems have mem: "tenor \<in> set (map fst kvs)"
    and sub: "set tenors \<subseteq> set (map fst kvs)"
    and dist: "distinct tenors" and fresh: "tenor \<notin> set tenors" by simp_all
  have eq: "map fst ?kvs1 = map fst kvs" by (rule map_fst_update)
  have "set tenors \<subseteq> set (map fst ?kvs1)" unfolding eq by (rule sub)
  from Cons.IH [OF dist this]
  have "bump_loop_fl rnd tenors d ?kvs1 =
          Inr (map (\<lambda>(k, v). if k \<in> set tenors then (k, rnd (v + d)) else (k, v)) ?kvs1)" .
  moreover have "map (\<lambda>(k, v). if k \<in> set tenors then (k, rnd (v + d)) else (k, v)) ?kvs1 =
                 map (\<lambda>(k, v). if k \<in> set (tenor # tenors) then (k, rnd (v + d)) else (k, v)) kvs"
    using fresh by (induction kvs) auto
  ultimately show ?case by (simp add: at_add_fl_value [OF mem])
qed

lemma unbump_loop_fl_value:
  "distinct tenors \<Longrightarrow> set tenors \<subseteq> set (map fst kvs) \<Longrightarrow>
   unbump_loop_fl rnd tenors d kvs =
     Inr (map (\<lambda>(k, v). if k \<in> set tenors then (k, rnd (v - d)) else (k, v)) kvs)"
proof (induction tenors arbitrary: kvs)
  case Nil
  then show ?case by (simp add: case_prod_unfold)
next
  case (Cons tenor tenors)
  let ?kvs1 = "map (\<lambda>(k, v). if k = tenor then (k, rnd (v - d)) else (k, v)) kvs"
  from Cons.prems have mem: "tenor \<in> set (map fst kvs)"
    and sub: "set tenors \<subseteq> set (map fst kvs)"
    and dist: "distinct tenors" and fresh: "tenor \<notin> set tenors" by simp_all
  have eq: "map fst ?kvs1 = map fst kvs" by (rule map_fst_update)
  have "set tenors \<subseteq> set (map fst ?kvs1)" unfolding eq by (rule sub)
  from Cons.IH [OF dist this]
  have "unbump_loop_fl rnd tenors d ?kvs1 =
          Inr (map (\<lambda>(k, v). if k \<in> set tenors then (k, rnd (v - d)) else (k, v)) ?kvs1)" .
  moreover have "map (\<lambda>(k, v). if k \<in> set tenors then (k, rnd (v - d)) else (k, v)) ?kvs1 =
                 map (\<lambda>(k, v). if k \<in> set (tenor # tenors) then (k, rnd (v - d)) else (k, v)) kvs"
    using fresh by (induction kvs) auto
  ultimately show ?case by (simp add: at_sub_fl_value [OF mem])
qed

lemma bump_release_tenor_fl:
  assumes ct: "check_tenor c tenor"
    and ex: "\<forall>(k, r)\<in>set (rates c). k = tenor \<longrightarrow> rnd r = r \<and> rnd (r + b) = r + b"
  shows "bump_release (bump_tenor_fl rnd tenor b) c = Inr c"
proof -
  let ?kvs1 = "map (\<lambda>(k, v). if k = tenor then (k, rnd (v + b)) else (k, v)) (rates c)"
  from ct have mem: "tenor \<in> set (map fst (rates c))"
    by (simp add: check_tenor_iff get_tenors_def)
  have "map fst ?kvs1 = map fst (rates c)" by (rule map_fst_update)
  with mem have mem1: "tenor \<in> set (map fst ?kvs1)" by simp
  have undo: "map (\<lambda>(k, v). if k = tenor then (k, rnd (v - b)) else (k, v)) ?kvs1 = rates c"
    by (rule sub_after_add_fl [OF ex])
  have "at_sub_fl rnd ?kvs1 tenor b = Inr (rates c)"
    unfolding at_sub_fl_value [OF mem1] undo ..
  then show ?thesis
    by (simp add: bump_release_def bump_tenor_fl_def at_add_fl_value [OF mem])
qed

lemma bump_release_curve_fl:
  assumes d0: "distinct (get_tenors c)"
    and ex: "\<forall>(k, r)\<in>set (rates c). rnd r = r \<and> rnd (r + b) = r + b"
  shows "bump_release (bump_curve_fl rnd b) c = Inr c"
proof -
  let ?ks = "map fst (rates c)"
  let ?kvs1 = "map (\<lambda>(k, v). if k \<in> set ?ks then (k, rnd (v + b)) else (k, v)) (rates c)"
  from d0 have d: "distinct ?ks" by (simp add: get_tenors_def)
  have up: "bump_loop_fl rnd ?ks b (rates c) = Inr ?kvs1"
    by (rule bump_loop_fl_value [OF d subset_refl])
  have eq: "map fst ?kvs1 = ?ks" by (rule map_fst_update)
  have ex': "\<forall>(k, r)\<in>set (rates c). k \<in> set ?ks \<longrightarrow> rnd r = r \<and> rnd (r + b) = r + b"
    using ex by auto
  have undo: "map (\<lambda>(k, v). if k \<in> set ?ks then (k, rnd (v - b)) else (k, v)) ?kvs1 = rates c"
    by (rule sub_after_add_fl [OF ex'])
  have "unbump_loop_fl rnd ?ks b ?kvs1 =
          Inr (map (\<lambda>(k, v). if k \<in> set ?ks then (k, rnd (v - b)) else (k, v)) ?kvs1)"
    by (rule unbump_loop_fl_value [OF d]) (simp only: eq subset_refl)
  then have down: "unbump_loop_fl rnd (map fst ?kvs1) b ?kvs1 = Inr (rates c)"
    unfolding undo eq .
  show ?thesis
    unfolding bump_release_def bump_curve_fl_def get_tenors_def up
    using down by simp
qed

lemma round64_2: "round64 2 = 2"
  using round64_representable [of "2 ^ 52" "- 51"] by (simp add: powr_minus)

text \<open>
  Claim C2, as the code has it. The release subtracts the amount that the bump added.
  In exact arithmetic this restores every rate, so after a full \<open>bump_tenor\<close> cycle at a
  stored tenor, or a full \<open>bump_curve\<close> cycle, \<open>get_discount_factor\<close> returns at every
  tenor what it returned before. In rounded arithmetic the same holds, bit for bit,
  whenever every addition \<open>rate + amount\<close> that the bump performs is exact (the rates
  being numbers of the format). It does not hold when an addition rounds: the restored
  rate is then the rounded difference of the rounded sum and the amount.
\<close>

theorem bump_release_neutral:
  fixes rnd :: "real \<Rightarrow> real"
  shows
    "(check_tenor c tenor \<and>
      (\<forall>(k, r)\<in>set (rates c). k = tenor \<longrightarrow> rnd r = r \<and> rnd (r + b) = r + b) \<longrightarrow>
        (\<exists>c'. bump_release (bump_tenor_fl rnd tenor b) c = Inr c' \<and>
              get_discount_factor_fl rnd c' t = get_discount_factor_fl rnd c t)) \<and>
     (distinct (get_tenors c) \<and>
      (\<forall>(k, r)\<in>set (rates c). rnd r = r \<and> rnd (r + b) = r + b) \<longrightarrow>
        (\<exists>c'. bump_release (bump_curve_fl rnd b) c = Inr c' \<and>
              get_discount_factor_fl rnd c' t = get_discount_factor_fl rnd c t)) \<and>
     (check_tenor c tenor \<longrightarrow>
        (\<exists>c'. bump_release (bump_tenor tenor b) c = Inr c' \<and>
              get_discount_factor c' t = get_discount_factor c t)) \<and>
     (distinct (get_tenors c) \<longrightarrow>
        (\<exists>c'. bump_release (bump_curve b) c = Inr c' \<and>
              get_discount_factor c' t = get_discount_factor c t))"
proof (intro conjI impI)
  assume "check_tenor c tenor \<and>
      (\<forall>(k, r)\<in>set (rates c). k = tenor \<longrightarrow> rnd r = r \<and> rnd (r + b) = r + b)"
  then have "bump_release (bump_tenor_fl rnd tenor b) c = Inr c"
    by (intro bump_release_tenor_fl) simp_all
  then show "\<exists>c'. bump_release (bump_tenor_fl rnd tenor b) c = Inr c' \<and>
              get_discount_factor_fl rnd c' t = get_discount_factor_fl rnd c t"
    by simp
next
  assume "distinct (get_tenors c) \<and>
      (\<forall>(k, r)\<in>set (rates c). rnd r = r \<and> rnd (r + b) = r + b)"
  then have "bump_release (bump_curve_fl rnd b) c = Inr c"
    by (intro bump_release_curve_fl) simp_all
  then show "\<exists>c'. bump_release (bump_curve_fl rnd b) c = Inr c' \<and>
              get_discount_factor_fl rnd c' t = get_discount_factor_fl rnd c t"
    by simp
next
  assume "check_tenor c tenor"
  then have "bump_release (bump_tenor_fl (\<lambda>x. x) tenor b) c = Inr c"
    by (intro bump_release_tenor_fl) simp_all
  then show "\<exists>c'. bump_release (bump_tenor tenor b) c = Inr c' \<and>
              get_discount_factor c' t = get_discount_factor c t"
    by (simp add: bump_tenor_fl_exact)
next
  assume "distinct (get_tenors c)"
  then have "bump_release (bump_curve_fl (\<lambda>x. x) b) c = Inr c"
    by (intro bump_release_curve_fl) simp_all
  then show "\<exists>c'. bump_release (bump_curve b) c = Inr c' \<and>
              get_discount_factor c' t = get_discount_factor c t"
    by (simp add: bump_curve_fl_exact)
qed

theorem bump_release_neutral_witness:
  "(\<exists>c'. bump_release (bump_tenor_fl round64 360 1) \<lparr>rates = [(360, 1)]\<rparr> = Inr c' \<and>
         get_discount_factor_fl round64 c' 360 =
           get_discount_factor_fl round64 \<lparr>rates = [(360, 1)]\<rparr> 360) \<and>
   (\<exists>c'. bump_release (bump_curve_fl round64 1) \<lparr>rates = [(360, 1)]\<rparr> = Inr c' \<and>
         get_discount_factor_fl round64 c' 360 =
           get_discount_factor_fl round64 \<lparr>rates = [(360, 1)]\<rparr> 360) \<and>
   (\<exists>c'. bump_release (bump_tenor 360 (1 / 10000)) \<lparr>rates = [(360, 1 / 20)]\<rparr> = Inr c' \<and>
         get_discount_factor c' 360 = get_discount_factor \<lparr>rates = [(360, 1 / 20)]\<rparr> 360) \<and>
   (\<exists>c'. bump_release (bump_curve (1 / 10000)) \<lparr>rates = [(360, 1 / 20)]\<rparr> = Inr c' \<and>
         get_discount_factor c' 360 = get_discount_factor \<lparr>rates = [(360, 1 / 20)]\<rparr> 360)"
proof -
  let ?c = "\<lparr>rates = [(360, 1)]\<rparr> :: InterestRates"
  let ?d = "\<lparr>rates = [(360, 1 / 20)]\<rparr> :: InterestRates"
  have ct: "check_tenor ?c 360" and dt: "check_tenor ?d 360" by (simp_all add: check_tenor_def)
  have cd: "distinct (get_tenors ?c)" and dd: "distinct (get_tenors ?d)"
    by (simp_all add: get_tenors_def)
  have ex: "\<forall>(k, r)\<in>set (rates ?c). round64 r = r \<and> round64 (r + 1) = r + 1"
    by (simp add: round64_1 round64_2)
  then have ex': "\<forall>(k, r)\<in>set (rates ?c). k = 360 \<longrightarrow> round64 r = r \<and> round64 (r + 1) = r + 1"
    by simp
  note a = bump_release_neutral [of ?c 360 round64 1 360]
  note b = bump_release_neutral [of ?d 360 round64 "1 / 10000" 360]
  from a ct ex' have 1: "\<exists>c'. bump_release (bump_tenor_fl round64 360 1) ?c = Inr c' \<and>
         get_discount_factor_fl round64 c' 360 = get_discount_factor_fl round64 ?c 360"
    by blast
  from a cd ex have 2: "\<exists>c'. bump_release (bump_curve_fl round64 1) ?c = Inr c' \<and>
         get_discount_factor_fl round64 c' 360 = get_discount_factor_fl round64 ?c 360"
    by blast
  from b dt have 3: "\<exists>c'. bump_release (bump_tenor 360 (1 / 10000)) ?d = Inr c' \<and>
         get_discount_factor c' 360 = get_discount_factor ?d 360"
    by blast
  from b dd have 4: "\<exists>c'. bump_release (bump_curve (1 / 10000)) ?d = Inr c' \<and>
         get_discount_factor c' 360 = get_discount_factor ?d 360"
    by blast
  from 1 2 3 4 show ?thesis by blast
qed

text \<open>
  The claim as stated fails in binary64 arithmetic. The curve holds the rate 1.0 at tenor
  360 and the bump amount is \<open>2 ^ 53\<close>; both are numbers of the format. The sum
  \<open>2 ^ 53 + 1\<close> lies halfway between two neighbours and rounds to \<open>2 ^ 53\<close>, so the
  release leaves the rate 0. The discount factor at tenor 360 was the rounded \<open>exp (- 1)\<close>
  before the cycle and is 1 after it.
\<close>

theorem bump_release_rounding_counterexample:
  "round64 1 = 1 \<and> round64 9007199254740992 = 9007199254740992 \<and>
   bump_release (bump_tenor_fl round64 360 9007199254740992) \<lparr>rates = [(360, 1)]\<rparr> =
     Inr \<lparr>rates = [(360, 0)]\<rparr> \<and>
   get_discount_factor_fl round64 \<lparr>rates = [(360, 1)]\<rparr> 360 = Inr (round64 (exp (- 1))) \<and>
   get_discount_factor_fl round64 \<lparr>rates = [(360, 0)]\<rparr> 360 = Inr 1 \<and>
   round64 (exp (- 1)) \<noteq> 1"
proof -
  have cycle: "bump_release (bump_tenor_fl round64 360 9007199254740992) \<lparr>rates = [(360, 1)]\<rparr> =
      Inr \<lparr>rates = [(360, 0)]\<rparr>"
    by (simp add: bump_release_def bump_tenor_fl_def at_add_fl_def at_sub_fl_def
        round64_2_53_plus_1 round64_0)
  have br: "bracket \<lparr>rates = [(360, r)]\<rparr> 360 = Inr (360, r, 361, r)" for r
    by (simp add: bracket_def deref_def)
  have before: "get_discount_factor_fl round64 \<lparr>rates = [(360, 1)]\<rparr> 360 =
      Inr (round64 (exp (- 1)))"
    by (simp add: get_discount_factor_fl_def br of_cint_def round64_0 round64_1
        round64_minus_360 round64_minus_1)
  have after: "get_discount_factor_fl round64 \<lparr>rates = [(360, 0)]\<rparr> 360 = Inr 1"
    by (simp add: get_discount_factor_fl_def br of_cint_def round64_0 round64_1)
  have "round64 (exp (- 1)) \<noteq> 1" using round64_exp_minus_1 by simp
  with cycle before after show ?thesis by (simp add: round64_1 round64_2_53)
qed

end
